theory Spec2Isabelle
  imports Complex_Main
begin

section \<open>Tokens, pools and routes\<close>

text \<open>
  \<^verbatim>\<open>Token\<close>, \<^verbatim>\<open>Pool\<close> and \<^verbatim>\<open>Route\<close> are classes of the exchange's SDK; the router
  uses their fields, \<^verbatim>\<open>Token.equals\<close> and \<^verbatim>\<open>Pool.involvesToken\<close>.
\<close>

definition toLowerCaseChar :: "char \<Rightarrow> char" where
  "toLowerCaseChar c =
     (if (65::nat) \<le> of_char c \<and> of_char c \<le> (90::nat)
      then char_of (of_char c + (32::nat)) else c)"

definition toLowerCase :: "string \<Rightarrow> string" where
  "toLowerCase s = map toLowerCaseChar s"

record Token =
  chainId :: nat
  address :: string
  symbol :: string
  decimals :: nat

text \<open>
  Modelled from the spec: the SDK's \<^verbatim>\<open>Token.equals\<close> is not among the sources. Two tokens
  are equal iff \<^verbatim>\<open>chainId\<close> and \<^verbatim>\<open>address\<close> match, the address case-insensitively.
\<close>

definition equals :: "Token \<Rightarrow> Token \<Rightarrow> bool" where
  "equals a b =
     (chainId a = chainId b \<and> toLowerCase (address a) = toLowerCase (address b))"

record Pool =
  token0 :: Token
  token1 :: Token
  fee :: nat

text \<open>
  Modelled from the spec: the SDK's \<^verbatim>\<open>Pool.involvesToken\<close> is not among the sources. A
  pool involves a token when the token equals one of its two endpoints.
\<close>

definition involvesToken :: "Pool \<Rightarrow> Token \<Rightarrow> bool" where
  "involvesToken pool token = (equals token (token0 pool) \<or> equals token (token1 pool))"

text \<open>
  \<^verbatim>\<open>RouteSOR\<close> (router.ts) extends the SDK's route: an ordered list of pools with the two
  endpoints of the trade.
\<close>

record RouteSOR =
  pools :: "Pool list"
  inputToken :: Token
  outputToken :: Token

section \<open>Route enumerator\<close>

text \<open>
  \<^verbatim>\<open>computeAllRoutes\<close> (alpha-router.ts) runs the closure \<^verbatim>\<open>computeRoutes\<close>, a
  depth-first search that mutates \<^verbatim>\<open>currentRoute\<close> and \<^verbatim>\<open>poolsUsed\<close> around each
  recursive call and restores them after it (\<^verbatim>\<open>poolsUsed[i] = false; currentRoute.pop()\<close>).
  The model passes the extended route and the updated flags to the recursive call and goes
  on with the old ones; the routes pushed to \<^verbatim>\<open>routes\<close> are returned in the order of
  the pushes. \<^verbatim>\<open>poolsUsed\<close> always has one flag per pool; a read beyond it would be
  \<^verbatim>\<open>undefined\<close>, which is falsy.
\<close>

function computeRoutes ::
  "Pool list \<Rightarrow> nat \<Rightarrow> Token \<Rightarrow> Token \<Rightarrow> Pool list \<Rightarrow> bool list \<Rightarrow> Token option
     \<Rightarrow> RouteSOR list"
where
  "computeRoutes allPools maxHops tokenIn tokenOut currentRoute poolsUsed previousTokenOut' =
     (if length currentRoute > maxHops then []
      else if currentRoute \<noteq> [] \<and> involvesToken (last currentRoute) tokenOut
      then [\<lparr>pools = currentRoute, inputToken = tokenIn, outputToken = tokenOut\<rparr>]
      else concat (map (\<lambda>i.
             if i < length poolsUsed \<and> poolsUsed ! i then []
             else
               let curPool = allPools ! i;
                   previousTokenOut =
                     (case previousTokenOut' of Some t \<Rightarrow> t | None \<Rightarrow> tokenIn)
               in
                 if \<not> involvesToken curPool previousTokenOut then []
                 else
                   let currentTokenOut =
                         (if equals (token0 curPool) previousTokenOut
                          then token1 curPool else token0 curPool)
                   in computeRoutes allPools maxHops tokenIn tokenOut
                        (currentRoute @ [curPool]) (poolsUsed[i := True])
                        (Some currentTokenOut))
           [0..<length allPools]))"
  by pat_completeness auto
termination
  by (relation "measure (\<lambda>(allPools, maxHops, tokenIn, tokenOut, currentRoute, poolsUsed, p).
                  Suc maxHops - length currentRoute)") auto

declare computeRoutes.simps [simp del]

definition computeAllRoutes :: "Token \<Rightarrow> Token \<Rightarrow> Pool list \<Rightarrow> nat \<Rightarrow> RouteSOR list" where
  "computeAllRoutes tokenIn tokenOut allPools maxHops =
     computeRoutes allPools maxHops tokenIn tokenOut []
       (replicate (length allPools) False) None"

text \<open>
  The token reached by following a list of pools from a token, each pool entered at the
  token reached so far and left at its other endpoint (the \<^verbatim>\<open>currentTokenOut\<close> of the
  search); \<open>None\<close> when some pool does not involve the token reached before it.
\<close>

fun chainEnd :: "Token \<Rightarrow> Pool list \<Rightarrow> Token option" where
  "chainEnd t [] = Some t"
| "chainEnd t (p # ps) =
     (if involvesToken p t
      then chainEnd (if equals (token0 p) t then token1 p else token0 p) ps
      else None)"

section \<open>Amount distributor\<close>

text \<open>
  \<^verbatim>\<open>getAmountDistribution\<close> (alpha-router.ts) walks \<^verbatim>\<open>i = 1, 2, ...\<close> while
  \<^verbatim>\<open>i <= 100 / distributionPercent\<close> and pushes the percentage \<^verbatim>\<open>i * distributionPercent\<close>
  and the amount \<^verbatim>\<open>amount.multiply(new Fraction(i * distributionPercent, 100))\<close>.
  Currency amounts are exact fractions, modelled as \<^typ>\<open>rat\<close>; percentages are integers.

  The loop test is a comparison of JavaScript numbers. For an integer
  \<^verbatim>\<open>distributionPercent\<close> it is the integer comparison below: \<^verbatim>\<open>100 / 0\<close> is
  \<^verbatim>\<open>Infinity\<close>, so with a zero step the test never fails and the loop does not return.
\<close>

definition loopTest :: "int \<Rightarrow> int \<Rightarrow> bool" where
  "loopTest i distributionPercent =
     (if distributionPercent = 0 then True
      else if 0 < distributionPercent then i * distributionPercent \<le> 100
      else 100 \<le> i * distributionPercent)"

partial_function (option) distributionLoop ::
  "rat \<Rightarrow> int \<Rightarrow> int \<Rightarrow> int list \<Rightarrow> rat list \<Rightarrow> (int list \<times> rat list) option"
where
  "distributionLoop amount distributionPercent i percents amounts =
     (if loopTest i distributionPercent
      then distributionLoop amount distributionPercent (i + 1)
             (percents @ [i * distributionPercent])
             (amounts @ [amount * (of_int (i * distributionPercent) / 100)])
      else Some (percents, amounts))"

definition getAmountDistribution :: "rat \<Rightarrow> int \<Rightarrow> (int list \<times> rat list) option" where
  "getAmountDistribution amount distributionPercent =
     distributionLoop amount distributionPercent 1 [] []"

section \<open>Invariants of the route search\<close>

definition searchState ::
  "Pool list \<Rightarrow> Token \<Rightarrow> Token \<Rightarrow> nat list \<Rightarrow> Pool list \<Rightarrow> bool list \<Rightarrow> Token option \<Rightarrow> bool"
where
  "searchState allPools tokenIn tokenOut js currentRoute poolsUsed prev =
     (currentRoute = map ((!) allPools) js \<and> distinct js \<and> set js \<subseteq> {..<length allPools}
      \<and> length poolsUsed = length allPools
      \<and> (\<forall>i<length allPools. poolsUsed ! i = (i \<in> set js))
      \<and> chainEnd tokenIn currentRoute = Some (case prev of None \<Rightarrow> tokenIn | Some t \<Rightarrow> t)
      \<and> (\<forall>p\<in>set (butlast currentRoute). \<not> involvesToken p tokenOut))"

definition emitted :: "Pool list \<Rightarrow> nat \<Rightarrow> Token \<Rightarrow> Token \<Rightarrow> RouteSOR \<Rightarrow> bool" where
  "emitted allPools maxHops tokenIn tokenOut r =
     ((\<exists>js. pools r = map ((!) allPools) js \<and> distinct js \<and> set js \<subseteq> {..<length allPools})
      \<and> pools r \<noteq> [] \<and> length (pools r) \<le> maxHops
      \<and> chainEnd tokenIn (pools r) \<noteq> None
      \<and> involvesToken (last (pools r)) tokenOut
      \<and> (\<forall>p\<in>set (butlast (pools r)). \<not> involvesToken p tokenOut)
      \<and> inputToken r = tokenIn \<and> outputToken r = tokenOut)"

section \<open>Example tokens, pools and routes\<close>

definition tokenA :: Token where
  "tokenA = \<lparr>chainId = 1, address = ''0xAa01'', symbol = ''AAA'', decimals = 18\<rparr>"
definition tokenB :: Token where
  "tokenB = \<lparr>chainId = 1, address = ''0xBb02'', symbol = ''BBB'', decimals = 18\<rparr>"
definition tokenC :: Token where
  "tokenC = \<lparr>chainId = 1, address = ''0xCc03'', symbol = ''CCC'', decimals = 6\<rparr>"
definition poolAB :: Pool where "poolAB = \<lparr>token0 = tokenA, token1 = tokenB, fee = 500\<rparr>"
definition poolAC :: Pool where "poolAC = \<lparr>token0 = tokenA, token1 = tokenC, fee = 500\<rparr>"
definition poolBC :: Pool where "poolBC = \<lparr>token0 = tokenB, token1 = tokenC, fee = 500\<rparr>"
definition poolBC' :: Pool where "poolBC' = \<lparr>token0 = tokenB, token1 = tokenC, fee = 3000\<rparr>"
definition routeACB :: RouteSOR where
  "routeACB = \<lparr>pools = [poolAC, poolBC], inputToken = tokenA, outputToken = tokenB\<rparr>"

section \<open>Split optimiser\<close>

datatype TradeType = EXACT_INPUT | EXACT_OUTPUT

text \<open>
  The ways the optimiser stops without a result: a JavaScript \<^verbatim>\<open>TypeError\<close> (a
  property read or an iteration on \<^verbatim>\<open>undefined\<close>), the explicit
  \<^verbatim>\<open>throw new Error('Four splits is not supported')\<close>, and the SDK's
  \<^verbatim>\<open>Invariant failed: AMOUNT\<close> raised by \<^verbatim>\<open>CurrencyAmount.add\<close>.
\<close>

datatype error = TypeError | FourSplitsNotSupported | InvariantAMOUNT

text \<open>
  \<^verbatim>\<open>CurrencyAmount.add\<close> of the SDK adds the two fractions exactly and builds a new
  currency amount, whose constructor requires the quotient (numerator divided by
  denominator, truncated) to be at most \<open>2^256 - 1\<close> and raises
  \<^verbatim>\<open>Invariant failed: AMOUNT\<close> otherwise. The truncated quotient of a fraction is at most
  \<open>2^256 - 1\<close> exactly when its floor is. All quotes of one search are amounts of the one
  quote token, so the currency check of \<^verbatim>\<open>add\<close> passes.
\<close>

definition MaxUint256 :: int where
  "MaxUint256 = 2 ^ 256 - 1"

definition currencyAdd :: "rat \<Rightarrow> rat \<Rightarrow> error + rat" where
  "currencyAdd a b = (if \<lfloor>a + b\<rfloor> \<le> MaxUint256 then Inr (a + b) else Inl InvariantAMOUNT)"

text \<open>
  The per-amount answer of the quote provider. The four optional fields are absent for a
  failed quote; when present they are objects (big numbers, arrays), which are truthy
  whatever their value.
\<close>

record AmountQuote =
  aq_amount :: rat
  aq_quote :: "int option"
  aq_sqrtPriceX96AfterList :: "int list option"
  aq_initializedTicksCrossedList :: "int list option"
  aq_gasEstimate :: "int option"

text \<open>
  The fields of \<^verbatim>\<open>RouteWithValidQuote\<close> that the optimiser reads: \<^verbatim>\<open>route\<close>,
  \<^verbatim>\<open>amount\<close>, \<^verbatim>\<open>quote\<close>, \<^verbatim>\<open>quoteAdjustedForGas\<close>, \<^verbatim>\<open>gasEstimate\<close> and
  \<^verbatim>\<open>percent\<close>. Currency amounts are exact fractions.
\<close>

record RouteWithValidQuote =
  rq_route :: RouteSOR
  rq_amount :: rat
  rq_quote :: rat
  rq_quoteAdjustedForGas :: rat
  rq_gasEstimate :: int
  rq_percent :: int

text \<open>\<^verbatim>\<open>RouteAmount\<close> (router.ts) and the plan returned by \<^verbatim>\<open>getBestSwapRouteBy\<close>.\<close>

record RouteAmount =
  ra_route :: RouteSOR
  ra_amount :: rat
  ra_quote :: rat
  ra_quoteGasAdjusted :: rat
  ra_estimatedGasUsed :: int
  ra_percentage :: int

record SwapPlan =
  plan_quote :: rat
  plan_quoteGasAdjusted :: rat
  plan_estimatedGasUsed :: int
  plan_routeAmounts :: "RouteAmount list"

text \<open>
  Modelled from the spec: the constructor of \<^verbatim>\<open>RouteWithValidQuote\<close> and the gas model
  are not among the sources. The gas model is a parameter that maps a route and the
  quoter's gas estimate to the recorded gas estimate and the gas cost in the quote token;
  \<^verbatim>\<open>quoteAdjustedForGas\<close> is the raw quote minus that cost for \<^verbatim>\<open>EXACT_INPUT\<close> and plus
  that cost for \<^verbatim>\<open>EXACT_OUTPUT\<close>.
\<close>

definition newRouteWithValidQuote ::
  "(RouteSOR \<Rightarrow> int \<Rightarrow> int \<times> rat) \<Rightarrow> TradeType \<Rightarrow> RouteSOR \<Rightarrow> rat \<Rightarrow> int \<Rightarrow> int \<Rightarrow> int
     \<Rightarrow> RouteWithValidQuote"
where
  "newRouteWithValidQuote gasModel routeType route amount rawQuote percent quoterGasEstimate =
     \<lparr>rq_route = route, rq_amount = amount, rq_quote = of_int rawQuote,
      rq_quoteAdjustedForGas =
        (if routeType = EXACT_INPUT
         then of_int rawQuote - snd (gasModel route quoterGasEstimate)
         else of_int rawQuote + snd (gasModel route quoterGasEstimate)),
      rq_gasEstimate = fst (gasModel route quoterGasEstimate),
      rq_percent = percent\<rparr>"

text \<open>
  \<^verbatim>\<open>Pool.getAddress\<close> is the SDK's deterministic pool address; it is a parameter of the
  model. \<^verbatim>\<open>getPoolAddress\<close> is the closure of \<^verbatim>\<open>findFirstRouteNotUsingUsedPools\<close>.
\<close>

definition getPoolAddress :: "(Token \<Rightarrow> Token \<Rightarrow> nat \<Rightarrow> 'addr) \<Rightarrow> Pool \<Rightarrow> 'addr" where
  "getPoolAddress getAddress pool = getAddress (token0 pool) (token1 pool) (fee pool)"

definition findFirstRouteNotUsingUsedPools ::
  "(Token \<Rightarrow> Token \<Rightarrow> nat \<Rightarrow> 'addr) \<Rightarrow> RouteSOR list \<Rightarrow> RouteWithValidQuote list
     \<Rightarrow> RouteWithValidQuote option"
where
  "findFirstRouteNotUsingUsedPools getAddress usedRoutes candidateRouteQuotes =
     (let usedPoolAddresses = map (getPoolAddress getAddress) (concat (map pools usedRoutes));
          poolAddressSet = set usedPoolAddresses
      in find (\<lambda>routeQuote.
                 \<not> list_ex (\<lambda>pool. getPoolAddress getAddress pool \<in> poolAddressSet)
                      (pools (rq_route routeQuote)))
              candidateRouteQuotes)"

text \<open>
  The per-bucket sort. The comparator answers \<^verbatim>\<open>-1\<close> exactly when the first quote is
  strictly better (greater for \<^verbatim>\<open>EXACT_INPUT\<close>, less otherwise) and \<^verbatim>\<open>1\<close> otherwise, so
  the engine's insertion sort leaves a quote behind every quote that it does not beat: a
  stable sort, descending for \<^verbatim>\<open>EXACT_INPUT\<close> and ascending otherwise.
\<close>

definition sortQuotes ::
  "TradeType \<Rightarrow> (RouteWithValidQuote \<Rightarrow> rat) \<Rightarrow> RouteWithValidQuote list
     \<Rightarrow> RouteWithValidQuote list"
where
  "sortQuotes routeType by' routeQuotes =
     (if routeType = EXACT_INPUT then sort_key (\<lambda>q. - by' q) routeQuotes
      else sort_key by' routeQuotes)"

definition quoteCompFn :: "TradeType \<Rightarrow> rat \<Rightarrow> rat \<Rightarrow> bool" where
  "quoteCompFn routeType a b = (if routeType = EXACT_INPUT then a > b else a < b)"

text \<open>
  The body of the 2-split loop, over the percentages \<^verbatim>\<open>percents[i]\<close> it visits. The
  state is \<^verbatim>\<open>(bestQuote, bestSwap)\<close>. Reading index 0 of a missing bucket, or
  destructuring the \<^verbatim>\<open>undefined\<close> head of an empty one, is a \<^verbatim>\<open>TypeError\<close>;
  \<^verbatim>\<open>quoteA.add(by(routeWithQuoteB))\<close> raises when the sum leaves the range of a currency
  amount.
\<close>

fun split2Loop ::
  "(Token \<Rightarrow> Token \<Rightarrow> nat \<Rightarrow> 'addr) \<Rightarrow> TradeType \<Rightarrow> (int \<rightharpoonup> RouteWithValidQuote list)
     \<Rightarrow> (RouteWithValidQuote \<Rightarrow> rat) \<Rightarrow> int list \<Rightarrow> rat \<times> RouteWithValidQuote list
     \<Rightarrow> error + rat \<times> RouteWithValidQuote list"
where
  "split2Loop getAddress routeType percentToSortedQuotes by' [] best = Inr best"
| "split2Loop getAddress routeType percentToSortedQuotes by' (percentA # rest) best =
     (case percentToSortedQuotes percentA of
        None \<Rightarrow> Inl TypeError
      | Some [] \<Rightarrow> Inl TypeError
      | Some (routeWithQuoteA # _) \<Rightarrow>
          (case percentToSortedQuotes (100 - percentA) of
             None \<Rightarrow> split2Loop getAddress routeType percentToSortedQuotes by' rest best
           | Some candidateRoutesB \<Rightarrow>
               (case findFirstRouteNotUsingUsedPools getAddress
                       [rq_route routeWithQuoteA] candidateRoutesB of
                  None \<Rightarrow> split2Loop getAddress routeType percentToSortedQuotes by' rest best
                | Some routeWithQuoteB \<Rightarrow>
                    (case currencyAdd (by' routeWithQuoteA) (by' routeWithQuoteB) of
                       Inl e \<Rightarrow> Inl e
                     | Inr newQuote \<Rightarrow>
                         split2Loop getAddress routeType percentToSortedQuotes by' rest
                           (if quoteCompFn routeType newQuote (fst best)
                            then (newQuote, [routeWithQuoteA, routeWithQuoteB])
                            else best)))))"

text \<open>
  The inner loop of the 3-split search, over \<^verbatim>\<open>percents[j]\<close> for \<^verbatim>\<open>j > i\<close>. The bucket of
  \<^verbatim>\<open>percentB\<close> is handed to \<^verbatim>\<open>findFirstRouteNotUsingUsedPools\<close> unchecked, whose
  \<^verbatim>\<open>for ... of\<close> over \<^verbatim>\<open>undefined\<close> is a \<^verbatim>\<open>TypeError\<close>. The new quote is
  \<^verbatim>\<open>quoteA.add(quoteB).add(quoteC)\<close>, two additions that can each raise.
\<close>

fun split3Inner ::
  "(Token \<Rightarrow> Token \<Rightarrow> nat \<Rightarrow> 'addr) \<Rightarrow> TradeType \<Rightarrow> (int \<rightharpoonup> RouteWithValidQuote list)
     \<Rightarrow> (RouteWithValidQuote \<Rightarrow> rat) \<Rightarrow> RouteWithValidQuote \<Rightarrow> int \<Rightarrow> int list
     \<Rightarrow> rat \<times> RouteWithValidQuote list \<Rightarrow> error + rat \<times> RouteWithValidQuote list"
where
  "split3Inner getAddress routeType percentToSortedQuotes by' routeWithQuoteA remainingPercent
     [] best = Inr best"
| "split3Inner getAddress routeType percentToSortedQuotes by' routeWithQuoteA remainingPercent
     (percentB # rest) best =
     (case percentToSortedQuotes percentB of
        None \<Rightarrow> Inl TypeError
      | Some candidateRoutesB \<Rightarrow>
          (case findFirstRouteNotUsingUsedPools getAddress
                  [rq_route routeWithQuoteA] candidateRoutesB of
             None \<Rightarrow> split3Inner getAddress routeType percentToSortedQuotes by'
                       routeWithQuoteA remainingPercent rest best
           | Some routeWithQuoteB \<Rightarrow>
               (case percentToSortedQuotes (remainingPercent - percentB) of
                  None \<Rightarrow> split3Inner getAddress routeType percentToSortedQuotes by'
                            routeWithQuoteA remainingPercent rest best
                | Some candidateRoutesC \<Rightarrow>
                    (case findFirstRouteNotUsingUsedPools getAddress
                            [rq_route routeWithQuoteA, rq_route routeWithQuoteB]
                            candidateRoutesC of
                       None \<Rightarrow> split3Inner getAddress routeType percentToSortedQuotes by'
                                 routeWithQuoteA remainingPercent rest best
                     | Some routeWithQuoteC \<Rightarrow>
                         (case currencyAdd (by' routeWithQuoteA) (by' routeWithQuoteB) of
                            Inl e \<Rightarrow> Inl e
                          | Inr quoteAB \<Rightarrow>
                              (case currencyAdd quoteAB (by' routeWithQuoteC) of
                                 Inl e \<Rightarrow> Inl e
                               | Inr newQuote \<Rightarrow>
                                   split3Inner getAddress routeType percentToSortedQuotes by'
                                     routeWithQuoteA remainingPercent rest
                                     (if quoteCompFn routeType newQuote (fst best)
                                      then (newQuote,
                                            [routeWithQuoteA, routeWithQuoteB, routeWithQuoteC])
                                      else best)))))))"

text \<open>The outer loop of the 3-split search, over \<^verbatim>\<open>percents[i]\<close> and the percentages after it.\<close>

fun split3Loop ::
  "(Token \<Rightarrow> Token \<Rightarrow> nat \<Rightarrow> 'addr) \<Rightarrow> TradeType \<Rightarrow> (int \<rightharpoonup> RouteWithValidQuote list)
     \<Rightarrow> (RouteWithValidQuote \<Rightarrow> rat) \<Rightarrow> int list \<Rightarrow> rat \<times> RouteWithValidQuote list
     \<Rightarrow> error + rat \<times> RouteWithValidQuote list"
where
  "split3Loop getAddress routeType percentToSortedQuotes by' [] best = Inr best"
| "split3Loop getAddress routeType percentToSortedQuotes by' (percentA # rest) best =
     (case percentToSortedQuotes percentA of
        None \<Rightarrow> Inl TypeError
      | Some [] \<Rightarrow> Inl TypeError
      | Some (routeWithQuoteA # _) \<Rightarrow>
          (case split3Inner getAddress routeType percentToSortedQuotes by' routeWithQuoteA
                  (100 - percentA) rest best of
             Inl e \<Rightarrow> Inl e
           | Inr best' \<Rightarrow> split3Loop getAddress routeType percentToSortedQuotes by' rest best'))"

text \<open>
  \<^verbatim>\<open>let splits = 2; while (splits <= routingConfig.maxSplits) { ... splits += 1 }\<close>.
  \<^verbatim>\<open>Math.ceil(percents.length / 2)\<close> is \<open>(length percents + 1) div 2\<close>.
\<close>

function whileSplits ::
  "(Token \<Rightarrow> Token \<Rightarrow> nat \<Rightarrow> 'addr) \<Rightarrow> TradeType \<Rightarrow> (int \<rightharpoonup> RouteWithValidQuote list)
     \<Rightarrow> (RouteWithValidQuote \<Rightarrow> rat) \<Rightarrow> int list \<Rightarrow> int \<Rightarrow> int
     \<Rightarrow> rat \<times> RouteWithValidQuote list \<Rightarrow> error + rat \<times> RouteWithValidQuote list"
where
  "whileSplits getAddress routeType percentToSortedQuotes by' percents maxSplits splits best =
     (if splits \<le> maxSplits then
        (case (if splits = 2
               then split2Loop getAddress routeType percentToSortedQuotes by'
                      (take ((length percents + 1) div 2) percents) best
               else Inr best) of
           Inl e \<Rightarrow> Inl e
         | Inr best2 \<Rightarrow>
             (case (if splits = 3 \<and> length (snd best2) = 2
                    then split3Loop getAddress routeType percentToSortedQuotes by' percents best2
                    else Inr best2) of
                Inl e \<Rightarrow> Inl e
              | Inr best3 \<Rightarrow>
                  if splits = 4 then Inl FourSplitsNotSupported
                  else whileSplits getAddress routeType percentToSortedQuotes by' percents
                         maxSplits (splits + 1) best3))
      else Inr best)"
  by pat_completeness auto
termination
  by (relation "measure (\<lambda>(getAddress, routeType, sorted, by', percents, maxSplits, splits, best).
                  nat (maxSplits + 1 - splits))") auto

declare whileSplits.simps [simp del]

text \<open>
  The local \<^verbatim>\<open>sum\<close> starts from \<^verbatim>\<open>currencyAmounts[0]\<close> and adds the rest with
  \<^verbatim>\<open>CurrencyAmount.add\<close>; it is applied to \<^verbatim>\<open>bestSwap\<close>, which holds one, two or three
  quotes.
\<close>

fun sumLoop :: "rat \<Rightarrow> rat list \<Rightarrow> error + rat" where
  "sumLoop acc [] = Inr acc"
| "sumLoop acc (currencyAmount # rest) =
     (case currencyAdd acc currencyAmount of
        Inl e \<Rightarrow> Inl e
      | Inr acc' \<Rightarrow> sumLoop acc' rest)"

definition sumAmounts :: "rat list \<Rightarrow> error + rat" where
  "sumAmounts currencyAmounts = sumLoop (hd currencyAmounts) (tl currencyAmounts)"

definition toRouteAmount :: "RouteWithValidQuote \<Rightarrow> RouteAmount" where
  "toRouteAmount rq =
     \<lparr>ra_route = rq_route rq, ra_amount = rq_amount rq, ra_quote = rq_quote rq,
      ra_quoteGasAdjusted = rq_quoteAdjustedForGas rq,
      ra_estimatedGasUsed = rq_gasEstimate rq, ra_percentage = rq_percent rq\<rparr>"

text \<open>
  The plan assembly after the search: the gas-adjusted quotes are summed first, then the
  gas estimates (unbounded big numbers), then the quotes.
\<close>

definition assemblePlan :: "RouteWithValidQuote list \<Rightarrow> error + SwapPlan" where
  "assemblePlan bestSwap =
     (case sumAmounts (map rq_quoteAdjustedForGas bestSwap) of
        Inl e \<Rightarrow> Inl e
      | Inr quoteGasAdjusted \<Rightarrow>
          (case sumAmounts (map rq_quote bestSwap) of
             Inl e \<Rightarrow> Inl e
           | Inr quote \<Rightarrow>
               Inr \<lparr>plan_quote = quote,
                    plan_quoteGasAdjusted = quoteGasAdjusted,
                    plan_estimatedGasUsed = foldl (+) 0 (map rq_gasEstimate bestSwap),
                    plan_routeAmounts =
                      sort_key (\<lambda>ra. - ra_percentage ra) (map toRouteAmount bestSwap)\<rparr>))"

text \<open>
  \<^verbatim>\<open>getBestSwapRouteBy\<close>: \<open>Inr None\<close> is the \<^verbatim>\<open>undefined\<close> returned when bucket 100 is
  missing. Its only caller passes \<^verbatim>\<open>rq => rq.quoteAdjustedForGas\<close> for \<^verbatim>\<open>by\<close>, which
  is a \<^verbatim>\<open>TypeError\<close> on the \<^verbatim>\<open>undefined\<close> head of an empty bucket 100.
\<close>

definition getBestSwapRouteBy ::
  "(Token \<Rightarrow> Token \<Rightarrow> nat \<Rightarrow> 'addr) \<Rightarrow> TradeType \<Rightarrow> (int \<rightharpoonup> RouteWithValidQuote list)
     \<Rightarrow> int list \<Rightarrow> (RouteWithValidQuote \<Rightarrow> rat) \<Rightarrow> int \<Rightarrow> error + SwapPlan option"
where
  "getBestSwapRouteBy getAddress routeType percentToQuotes percents by' maxSplits =
     (let percentToSortedQuotes =
            (\<lambda>percent. map_option (sortQuotes routeType by') (percentToQuotes percent))
      in case percentToSortedQuotes 100 of
           None \<Rightarrow> Inr None
         | Some [] \<Rightarrow> Inl TypeError
         | Some (first # _) \<Rightarrow>
             (case whileSplits getAddress routeType percentToSortedQuotes by' percents
                     maxSplits 2 (by' first, [first]) of
                Inl e \<Rightarrow> Inl e
              | Inr best \<Rightarrow>
                  (case assemblePlan (snd best) of
                     Inl e \<Rightarrow> Inl e
                   | Inr plan \<Rightarrow> Inr (Some plan))))"

text \<open>
  The bucketing loops of \<^verbatim>\<open>getBestSwapRoute\<close>. A quote with any of the four optional
  fields absent is skipped; a valid one is pushed to the bucket of \<^verbatim>\<open>percents[i]\<close>,
  created on first use. A quote at an index beyond \<^verbatim>\<open>percents\<close> would be stored under the
  key \<^verbatim>\<open>undefined\<close>, which no lookup by a number reads, so the model pairs quotes with
  percentages by \<^const>\<open>zip\<close>.
\<close>

definition isValidQuote :: "AmountQuote \<Rightarrow> bool" where
  "isValidQuote amountQuote =
     (aq_quote amountQuote \<noteq> None \<and> aq_sqrtPriceX96AfterList amountQuote \<noteq> None
      \<and> aq_initializedTicksCrossedList amountQuote \<noteq> None \<and> aq_gasEstimate amountQuote \<noteq> None)"

fun pushQuotes ::
  "(RouteSOR \<Rightarrow> int \<Rightarrow> int \<times> rat) \<Rightarrow> TradeType \<Rightarrow> RouteSOR \<Rightarrow> (int \<times> AmountQuote) list
     \<Rightarrow> (int \<rightharpoonup> RouteWithValidQuote list) \<Rightarrow> (int \<rightharpoonup> RouteWithValidQuote list)"
where
  "pushQuotes gasModel routeType route [] percentToQuotes = percentToQuotes"
| "pushQuotes gasModel routeType route ((percent, amountQuote) # rest) percentToQuotes =
     (if \<not> isValidQuote amountQuote
      then pushQuotes gasModel routeType route rest percentToQuotes
      else pushQuotes gasModel routeType route rest
             (percentToQuotes(percent \<mapsto>
                (case percentToQuotes percent of None \<Rightarrow> [] | Some quotes \<Rightarrow> quotes)
                @ [newRouteWithValidQuote gasModel routeType route (aq_amount amountQuote)
                     (the (aq_quote amountQuote)) percent (the (aq_gasEstimate amountQuote))])))"

fun bucketQuotes ::
  "(RouteSOR \<Rightarrow> int \<Rightarrow> int \<times> rat) \<Rightarrow> TradeType \<Rightarrow> int list
     \<Rightarrow> (RouteSOR \<times> AmountQuote list) list
     \<Rightarrow> (int \<rightharpoonup> RouteWithValidQuote list) \<Rightarrow> (int \<rightharpoonup> RouteWithValidQuote list)"
where
  "bucketQuotes gasModel routeType percents [] percentToQuotes = percentToQuotes"
| "bucketQuotes gasModel routeType percents ((route, quotes) # rest) percentToQuotes =
     bucketQuotes gasModel routeType percents rest
       (pushQuotes gasModel routeType route (zip percents quotes) percentToQuotes)"

definition getBestSwapRoute ::
  "(Token \<Rightarrow> Token \<Rightarrow> nat \<Rightarrow> 'addr) \<Rightarrow> int list \<Rightarrow> (RouteSOR \<times> AmountQuote list) list
     \<Rightarrow> TradeType \<Rightarrow> (RouteSOR \<Rightarrow> int \<Rightarrow> int \<times> rat) \<Rightarrow> int \<Rightarrow> error + SwapPlan option"
where
  "getBestSwapRoute getAddress percents routesWithQuotes routeType gasModel maxSplits =
     getBestSwapRouteBy getAddress routeType
       (bucketQuotes gasModel routeType percents routesWithQuotes Map.empty)
       percents rq_quoteAdjustedForGas maxSplits"

text \<open>Whether some route has a valid quote at a given percentage.\<close>

definition hasValidQuoteAt :: "int list \<Rightarrow> (RouteSOR \<times> AmountQuote list) list \<Rightarrow> int \<Rightarrow> bool" where
  "hasValidQuoteAt percents routesWithQuotes percent =
     list_ex (\<lambda>routeWithQuote.
                list_ex (\<lambda>pq. fst pq = percent \<and> isValidQuote (snd pq))
                  (zip percents (snd routeWithQuote)))
       routesWithQuotes"

text \<open>The pool addresses of a route, and the comparison of the claims on plan quality.\<close>

definition routePoolAddresses :: "(Token \<Rightarrow> Token \<Rightarrow> nat \<Rightarrow> 'addr) \<Rightarrow> RouteSOR \<Rightarrow> 'addr set" where
  "routePoolAddresses getAddress route = set (map (getPoolAddress getAddress) (pools route))"

definition atLeastAsGood :: "TradeType \<Rightarrow> rat \<Rightarrow> rat \<Rightarrow> bool" where
  "atLeastAsGood routeType a b = (if routeType = EXACT_INPUT then a \<ge> b else a \<le> b)"

section \<open>Example quotes\<close>

definition exampleAddress :: "Token \<Rightarrow> Token \<Rightarrow> nat \<Rightarrow> string \<times> string \<times> nat" where
  "exampleAddress a b f = (address a, address b, f)"

definition exampleGasModel :: "RouteSOR \<Rightarrow> int \<Rightarrow> int \<times> rat" where
  "exampleGasModel route quoterGasEstimate = (quoterGasEstimate, 1)"

definition routeAB :: RouteSOR where
  "routeAB = \<lparr>pools = [poolAB], inputToken = tokenA, outputToken = tokenB\<rparr>"

definition validQuote :: "rat \<Rightarrow> int \<Rightarrow> AmountQuote" where
  "validQuote amount q =
     \<lparr>aq_amount = amount, aq_quote = Some q, aq_sqrtPriceX96AfterList = Some [1],
      aq_initializedTicksCrossedList = Some [1], aq_gasEstimate = Some 100000\<rparr>"

definition failedQuote :: "rat \<Rightarrow> AmountQuote" where
  "failedQuote amount =
     \<lparr>aq_amount = amount, aq_quote = None, aq_sqrtPriceX96AfterList = None,
      aq_initializedTicksCrossedList = None, aq_gasEstimate = None\<rparr>"

text \<open>Two pool-disjoint routes quoted at 50% and 100%; the even split beats both.\<close>

definition splitQuotes :: "(RouteSOR \<times> AmountQuote list) list" where
  "splitQuotes =
     [(routeAB, [validQuote 50 60, validQuote 100 100]),
      (routeACB, [validQuote 50 55, validQuote 100 90])]"

text \<open>One route whose 50% call failed and whose 100% call succeeded.\<close>

definition partlyFailedQuotes :: "(RouteSOR \<times> AmountQuote list) list" where
  "partlyFailedQuotes = [(routeAB, [failedQuote 50, validQuote 100 100])]"

definition splitBuckets :: "int \<rightharpoonup> RouteWithValidQuote list" where
  "splitBuckets = bucketQuotes exampleGasModel EXACT_INPUT [50, 100] splitQuotes Map.empty"

definition splitPlan :: SwapPlan where
  "splitPlan =
     \<lparr>plan_quote = 115, plan_quoteGasAdjusted = 113, plan_estimatedGasUsed = 200000,
      plan_routeAmounts =
        [\<lparr>ra_route = routeAB, ra_amount = 50, ra_quote = 60, ra_quoteGasAdjusted = 59,
          ra_estimatedGasUsed = 100000, ra_percentage = 50\<rparr>,
         \<lparr>ra_route = routeACB, ra_amount = 50, ra_quote = 55, ra_quoteGasAdjusted = 54,
          ra_estimatedGasUsed = 100000, ra_percentage = 50\<rparr>]\<rparr>"

definition baselineBucket :: "RouteWithValidQuote list" where
  "baselineBucket =
     [\<lparr>rq_route = routeAB, rq_amount = 100, rq_quote = 100, rq_quoteAdjustedForGas = 99,
       rq_gasEstimate = 100000, rq_percent = 100\<rparr>,
      \<lparr>rq_route = routeACB, rq_amount = 100, rq_quote = 90, rq_quoteAdjustedForGas = 89,
       rq_gasEstimate = 100000, rq_percent = 100\<rparr>]"

text \<open>
  The same two routes with quotes of \<open>2^255 + 1\<close> at 50%: each is a valid 256-bit quote,
  and the sum of the two does not fit a currency amount.
\<close>

definition hugeQuotes :: "(RouteSOR \<times> AmountQuote list) list" where
  "hugeQuotes =
     [(routeAB, [validQuote 50 (2 ^ 255 + 1), validQuote 100 100]),
      (routeACB, [validQuote 50 (2 ^ 255 + 1), validQuote 100 90])]"

text \<open>
  Three pool-disjoint routes quoted at 25%, 50%, 75% and 100%. The best single route gives
  89 after gas, the best 2-split 128, and the 3-split 25/50/25 gives 133.
\<close>

definition tokenD :: Token where
  "tokenD = \<lparr>chainId = 1, address = ''0xDd04'', symbol = ''DDD'', decimals = 18\<rparr>"

definition poolAD :: Pool where "poolAD = \<lparr>token0 = tokenA, token1 = tokenD, fee = 500\<rparr>"

definition poolBD :: Pool where "poolBD = \<lparr>token0 = tokenB, token1 = tokenD, fee = 500\<rparr>"

definition routeADB :: RouteSOR where
  "routeADB = \<lparr>pools = [poolAD, poolBD], inputToken = tokenA, outputToken = tokenB\<rparr>"

definition threeWayQuotes :: "(RouteSOR \<times> AmountQuote list) list" where
  "threeWayQuotes =
     [(routeAB, [validQuote 25 40, validQuote 50 70, validQuote 75 80, validQuote 100 90]),
      (routeACB, [validQuote 25 38, validQuote 50 60, validQuote 75 70, validQuote 100 80]),
      (routeADB, [validQuote 25 36, validQuote 50 50, validQuote 75 60, validQuote 100 70])]"

definition threeWayPlan :: SwapPlan where
  "threeWayPlan =
     \<lparr>plan_quote = 136, plan_quoteGasAdjusted = 133, plan_estimatedGasUsed = 300000,
      plan_routeAmounts =
        [\<lparr>ra_route = routeACB, ra_amount = 50, ra_quote = 60, ra_quoteGasAdjusted = 59,
          ra_estimatedGasUsed = 100000, ra_percentage = 50\<rparr>,
         \<lparr>ra_route = routeAB, ra_amount = 25, ra_quote = 40, ra_quoteGasAdjusted = 39,
          ra_estimatedGasUsed = 100000, ra_percentage = 25\<rparr>,
         \<lparr>ra_route = routeADB, ra_amount = 25, ra_quote = 36, ra_quoteGasAdjusted = 35,
          ra_estimatedGasUsed = 100000, ra_percentage = 25\<rparr>]\<rparr>"

section \<open>Invariants of the split search\<close>

text \<open>
  Every quote stored under a percentage carries that percentage, as the bucketing of
  \<^verbatim>\<open>getBestSwapRoute\<close> builds the buckets.
\<close>

definition bucketsKeyed :: "(int \<rightharpoonup> RouteWithValidQuote list) \<Rightarrow> bool" where
  "bucketsKeyed percentToQuotes =
     (\<forall>percent quotes. percentToQuotes percent = Some quotes \<longrightarrow>
        list_all (\<lambda>q. rq_percent q = percent) quotes)"

definition poolDisjoint ::
  "(Token \<Rightarrow> Token \<Rightarrow> nat \<Rightarrow> 'addr) \<Rightarrow> RouteSOR \<Rightarrow> RouteSOR \<Rightarrow> bool"
where
  "poolDisjoint getAddress a b =
     (routePoolAddresses getAddress a \<inter> routePoolAddresses getAddress b = {})"

text \<open>
  Every quote of every bucket is below a bound, under \<^verbatim>\<open>by\<close> and in its \<^verbatim>\<open>quote\<close> and
  \<^verbatim>\<open>quoteAdjustedForGas\<close>. With three times the bound at most \<open>2^256\<close>, no sum of up
  to three quotes leaves the range of a currency amount.
\<close>

definition quoteBelow :: "rat \<Rightarrow> (RouteWithValidQuote \<Rightarrow> rat) \<Rightarrow> RouteWithValidQuote \<Rightarrow> bool" where
  "quoteBelow bound by' q =
     (by' q < bound \<and> rq_quote q < bound \<and> rq_quoteAdjustedForGas q < bound)"

definition quotesBelow ::
  "rat \<Rightarrow> (RouteWithValidQuote \<Rightarrow> rat) \<Rightarrow> (int \<rightharpoonup> RouteWithValidQuote list) \<Rightarrow> bool"
where
  "quotesBelow bound by' percentToQuotes =
     (\<forall>percent quotes. percentToQuotes percent = Some quotes \<longrightarrow>
        list_all (quoteBelow bound by') quotes)"

text \<open>
  What holds of \<^verbatim>\<open>(bestQuote, bestSwap)\<close> throughout the search, relative to a baseline
  quote: \<^verbatim>\<open>bestSwap\<close> holds one to three quotes, each taken from a bucket;
  \<^verbatim>\<open>bestQuote\<close> is the sum of its quotes under \<^verbatim>\<open>by\<close>; its routes are pairwise
  pool-disjoint; its percentages sum to 100 when the buckets are keyed by percentage; and
  \<^verbatim>\<open>bestQuote\<close> is at least as good as the baseline.
\<close>

definition bestInvariant ::
  "(Token \<Rightarrow> Token \<Rightarrow> nat \<Rightarrow> 'addr) \<Rightarrow> TradeType \<Rightarrow> (RouteWithValidQuote \<Rightarrow> rat)
     \<Rightarrow> (int \<rightharpoonup> RouteWithValidQuote list) \<Rightarrow> rat \<Rightarrow> rat \<times> RouteWithValidQuote list \<Rightarrow> bool"
where
  "bestInvariant getAddress routeType by' buckets baseline best =
     (snd best \<noteq> [] \<and> length (snd best) \<le> 3
      \<and> list_all (\<lambda>q. \<exists>percent quotes. buckets percent = Some quotes \<and> q \<in> set quotes)
            (snd best)
      \<and> fst best = sum_list (map by' (snd best))
      \<and> sorted_wrt (\<lambda>a b. poolDisjoint getAddress (rq_route a) (rq_route b)) (snd best)
      \<and> (bucketsKeyed buckets \<longrightarrow> sum_list (map rq_percent (snd best)) = 100)
      \<and> atLeastAsGood routeType (fst best) baseline)"

section \<open>Pool selection: the bridge slice\<close>

text \<open>
  A pool of the subgraph: its id is the pool address in lower case, and each token is
  known by its id (the token address in lower case) and its symbol.
\<close>

record SubgraphToken =
  sg_id :: string
  sg_symbol :: string

record SubgraphPool =
  sp_id :: string
  sp_token0 :: SubgraphToken
  sp_token1 :: SubgraphToken
  sp_feeTier :: string

text \<open>
  The slice \<^verbatim>\<open>top2EthQuoteTokenPool\<close> of \<^verbatim>\<open>getPoolsToConsider\<close>: a filter over
  \<^verbatim>\<open>subgraphPoolsSorted\<close> (the pools of the token list, by descending value locked)
  followed by \<^verbatim>\<open>slice(0, 2)\<close>. \<^verbatim>\<open>weth\<close> is the wrapped native token of the chain. The
  first branch compares token ids with addresses in lower case; the other branch compares
  token symbols with \<^verbatim>\<open>wethAddress\<close> and with the symbol of \<^verbatim>\<open>tokenIn\<close>.
\<close>

definition top2EthQuoteTokenPool ::
  "TradeType \<Rightarrow> Token \<Rightarrow> Token \<Rightarrow> Token \<Rightarrow> SubgraphPool list \<Rightarrow> SubgraphPool list"
where
  "top2EthQuoteTokenPool routeType weth tokenIn tokenOut subgraphPoolsSorted =
     (let tokenOutAddress = toLowerCase (address tokenOut);
          wethAddress = toLowerCase (address weth)
      in take 2 (filter (\<lambda>subgraphPool.
           if routeType = EXACT_INPUT
           then (sg_id (sp_token0 subgraphPool) = wethAddress
                   \<and> sg_id (sp_token1 subgraphPool) = tokenOutAddress)
                \<or> (sg_id (sp_token1 subgraphPool) = wethAddress
                   \<and> sg_id (sp_token0 subgraphPool) = tokenOutAddress)
           else (sg_symbol (sp_token0 subgraphPool) = wethAddress
                   \<and> sg_symbol (sp_token1 subgraphPool) = symbol tokenIn)
                \<or> (sg_symbol (sp_token1 subgraphPool) = wethAddress
                   \<and> sg_symbol (sp_token0 subgraphPool) = symbol tokenIn))
         subgraphPoolsSorted))"

text \<open>
  The slice as the two entry points select it. \<^verbatim>\<open>routeExactIn\<close> and \<^verbatim>\<open>routeExactOut\<close>
  both call \<^verbatim>\<open>getPoolsToConsider(tokenIn, tokenOut, TradeType.EXACT_INPUT, routingConfig)\<close>.
\<close>

definition routeExactIn_top2EthQuoteTokenPool ::
  "Token \<Rightarrow> Token \<Rightarrow> Token \<Rightarrow> SubgraphPool list \<Rightarrow> SubgraphPool list"
where
  "routeExactIn_top2EthQuoteTokenPool weth tokenIn tokenOut subgraphPoolsSorted =
     top2EthQuoteTokenPool EXACT_INPUT weth tokenIn tokenOut subgraphPoolsSorted"

definition routeExactOut_top2EthQuoteTokenPool ::
  "Token \<Rightarrow> Token \<Rightarrow> Token \<Rightarrow> SubgraphPool list \<Rightarrow> SubgraphPool list"
where
  "routeExactOut_top2EthQuoteTokenPool weth tokenIn tokenOut subgraphPoolsSorted =
     top2EthQuoteTokenPool EXACT_INPUT weth tokenIn tokenOut subgraphPoolsSorted"

text \<open>A subgraph pool pairs two tokens when its token ids are their lower-case addresses.\<close>

definition pairsTokens :: "SubgraphPool \<Rightarrow> Token \<Rightarrow> Token \<Rightarrow> bool" where
  "pairsTokens subgraphPool a b =
     ((sg_id (sp_token0 subgraphPool) = toLowerCase (address a)
         \<and> sg_id (sp_token1 subgraphPool) = toLowerCase (address b))
      \<or> (sg_id (sp_token1 subgraphPool) = toLowerCase (address a)
         \<and> sg_id (sp_token0 subgraphPool) = toLowerCase (address b)))"

section \<open>Example subgraph pools\<close>

definition tokenWETH :: Token where
  "tokenWETH = \<lparr>chainId = 1, address = ''0xEe09'', symbol = ''WETH'', decimals = 18\<rparr>"

definition subgraphWethA :: SubgraphPool where
  "subgraphWethA =
     \<lparr>sp_id = ''0x0a'', sp_token0 = \<lparr>sg_id = ''0xaa01'', sg_symbol = ''AAA''\<rparr>,
      sp_token1 = \<lparr>sg_id = ''0xee09'', sg_symbol = ''WETH''\<rparr>, sp_feeTier = ''3000''\<rparr>"

definition subgraphWethB :: SubgraphPool where
  "subgraphWethB =
     \<lparr>sp_id = ''0x0b'', sp_token0 = \<lparr>sg_id = ''0xbb02'', sg_symbol = ''BBB''\<rparr>,
      sp_token1 = \<lparr>sg_id = ''0xee09'', sg_symbol = ''WETH''\<rparr>, sp_feeTier = ''3000''\<rparr>"

definition subgraphAB :: SubgraphPool where
  "subgraphAB =
     \<lparr>sp_id = ''0x0c'', sp_token0 = \<lparr>sg_id = ''0xaa01'', sg_symbol = ''AAA''\<rparr>,
      sp_token1 = \<lparr>sg_id = ''0xbb02'', sg_symbol = ''BBB''\<rparr>, sp_feeTier = ''500''\<rparr>"

section \<open>Multicall results\<close>









section \<open>Example multicall answers\<close>






section \<open>Properties of the split optimiser\<close>

lemma sum_list_map_insort_key:
  "sum_list (map g (insort_key f x xs)) = g x + sum_list (map g xs)"
  for g :: "'a \<Rightarrow> 'b::comm_monoid_add"
  by (induction xs) (simp_all add: ac_simps)

lemma sum_list_map_sort_key:
  "sum_list (map g (sort_key f xs)) = sum_list (map g xs)"
  for g :: "'a \<Rightarrow> 'b::comm_monoid_add"
  by (induction xs) (simp_all add: sum_list_map_insort_key)

lemma sorted_wrt_insort_key:
  assumes sym: "\<And>a b. R a b \<Longrightarrow> R b a"
    and "sorted_wrt R xs" and "\<forall>y\<in>set xs. R x y"
  shows "sorted_wrt R (insort_key f x xs)"
  using assms(2,3)
proof (induction xs)
  case Nil
  then show ?case by simp
next
  case (Cons y ys)
  then show ?case by (auto simp: set_insort_key intro: sym)
qed

lemma sorted_wrt_sort_key:
  assumes sym: "\<And>a b. R a b \<Longrightarrow> R b a" and "sorted_wrt R xs"
  shows "sorted_wrt R (sort_key f xs)"
  using assms(2)
proof (induction xs)
  case Nil
  then show ?case by simp
next
  case (Cons x xs)
  then show ?case by (simp add: sorted_wrt_insort_key[OF sym])
qed

lemma foldl_plus_sum_list: "foldl (+) a xs = a + sum_list xs"
  for a :: "'a::comm_monoid_add"
  by (induction xs arbitrary: a) (simp_all add: ac_simps)

lemma currencyAdd_Inr: "currencyAdd a b = Inr c \<Longrightarrow> c = a + b"
  by (simp add: currencyAdd_def split: if_splits)

lemma currencyAdd_below:
  "a + b < 2 ^ 256 \<Longrightarrow> currencyAdd a b = Inr (a + b)"
proof -
  assume "a + b < 2 ^ 256"
  then have "a + b < of_int (2 ^ 256)" by simp
  then have "\<lfloor>a + b\<rfloor> < 2 ^ 256" by (simp only: floor_less_iff)
  then show ?thesis by (simp add: currencyAdd_def MaxUint256_def)
qed

lemma sumLoop_Inr: "sumLoop s xs = Inr t \<Longrightarrow> t = s + sum_list xs"
proof (induction xs arbitrary: s)
  case Nil
  then show ?case by simp
next
  case (Cons x xs)
  from Cons.prems obtain s' where add: "currencyAdd s x = Inr s'"
    and rest: "sumLoop s' xs = Inr t"
    by (auto split: sum.splits)
  from Cons.IH[OF rest] currencyAdd_Inr[OF add] show ?case by simp
qed

lemma sumAmounts_Inr: "xs \<noteq> [] \<Longrightarrow> sumAmounts xs = Inr t \<Longrightarrow> t = sum_list xs"
  by (cases xs) (auto simp: sumAmounts_def dest: sumLoop_Inr)

lemma set_sortQuotes: "set (sortQuotes routeType by' qs) = set qs"
  by (simp add: sortQuotes_def)

lemma sortQuotes_eq_Nil: "sortQuotes routeType by' qs = [] \<longleftrightarrow> qs = []"
  by (metis set_sortQuotes set_empty)

lemma findFirst_Some:
  assumes "findFirstRouteNotUsingUsedPools getAddress usedRoutes candidates = Some q"
  shows "q \<in> set candidates"
    and "\<forall>r\<in>set usedRoutes. poolDisjoint getAddress r (rq_route q)"
proof -
  from assms obtain i where i: "i < length candidates" "candidates ! i = q"
    and free: "\<not> list_ex (\<lambda>pool. getPoolAddress getAddress pool
                  \<in> set (map (getPoolAddress getAddress) (concat (map pools usedRoutes))))
                (pools (rq_route q))"
    unfolding findFirstRouteNotUsingUsedPools_def Let_def find_Some_iff by blast
  from i show "q \<in> set candidates" by auto
  have "getPoolAddress getAddress pool \<notin> getPoolAddress getAddress ` set (pools r)"
    if "pool \<in> set (pools (rq_route q))" and "r \<in> set usedRoutes" for pool r
    using free that by (auto simp: list_ex_iff)
  then show "\<forall>r\<in>set usedRoutes. poolDisjoint getAddress r (rq_route q)"
    unfolding poolDisjoint_def routePoolAddresses_def by (simp add: disjoint_iff) blast
qed

lemma bucketsKeyed_sorted:
  "bucketsKeyed (\<lambda>percent. map_option (sortQuotes routeType by') (m percent)) = bucketsKeyed m"
  unfolding bucketsKeyed_def by (auto simp: list_all_iff set_sortQuotes)

lemma poolDisjoint_sym: "poolDisjoint g a b \<Longrightarrow> poolDisjoint g b a"
  by (auto simp: poolDisjoint_def)

lemma atLeastAsGood_step:
  "quoteCompFn routeType new old \<Longrightarrow> atLeastAsGood routeType old baseline \<Longrightarrow>
   atLeastAsGood routeType new baseline"
  by (auto simp: quoteCompFn_def atLeastAsGood_def split: if_splits)

lemma bucketsKeyed_mem:
  "bucketsKeyed S \<Longrightarrow> S p = Some qs \<Longrightarrow> q \<in> set qs \<Longrightarrow> rq_percent q = p"
  unfolding bucketsKeyed_def list_all_iff by blast

lemma bucketsKeyed_hd:
  "bucketsKeyed S \<Longrightarrow> S p = Some (a # as) \<Longrightarrow> rq_percent a = p"
  using bucketsKeyed_mem[of S p "a # as" a] by simp

lemma bestInvariant_good:
  "bestInvariant g routeType by' S baseline best \<Longrightarrow> atLeastAsGood routeType (fst best) baseline"
  unfolding bestInvariant_def by blast

lemma bestInvariant_pair:
  assumes inv: "bestInvariant g routeType by' S baseline best"
    and A: "S percentA = Some (a # as)"
    and B: "S (100 - percentA) = Some candidatesB"
    and fB: "findFirstRouteNotUsingUsedPools g [rq_route a] candidatesB = Some b"
    and better: "quoteCompFn routeType (by' a + by' b) (fst best)"
  shows "bestInvariant g routeType by' S baseline (by' a + by' b, [a, b])"
proof -
  from findFirst_Some[OF fB] have bmem: "b \<in> set candidatesB"
    and dis: "poolDisjoint g (rq_route a) (rq_route b)" by simp_all
  have pct: "rq_percent a + rq_percent b = 100" if "bucketsKeyed S"
    using bucketsKeyed_hd[OF that A] bucketsKeyed_mem[OF that B bmem] by simp
  have good: "atLeastAsGood routeType (by' a + by' b) baseline"
    by (rule atLeastAsGood_step[OF better bestInvariant_good[OF inv]])
  have mem: "list_all (\<lambda>q. \<exists>percent quotes. S percent = Some quotes \<and> q \<in> set quotes) [a, b]"
    using A B bmem by (auto intro: exI[of _ percentA] exI[of _ "100 - percentA"])
  show ?thesis
    unfolding bestInvariant_def using dis pct good mem by simp
qed

lemma bestInvariant_triple:
  assumes inv: "bestInvariant g routeType by' S baseline best"
    and A: "S percentA = Some (a # as)"
    and B: "S percentB = Some candidatesB"
    and fB: "findFirstRouteNotUsingUsedPools g [rq_route a] candidatesB = Some b"
    and C: "S (100 - percentA - percentB) = Some candidatesC"
    and fC: "findFirstRouteNotUsingUsedPools g [rq_route a, rq_route b] candidatesC = Some c"
    and better: "quoteCompFn routeType (by' a + by' b + by' c) (fst best)"
  shows "bestInvariant g routeType by' S baseline (by' a + by' b + by' c, [a, b, c])"
proof -
  from findFirst_Some[OF fB] have bmem: "b \<in> set candidatesB"
    and disAB: "poolDisjoint g (rq_route a) (rq_route b)" by simp_all
  from findFirst_Some[OF fC] have cmem: "c \<in> set candidatesC"
    and disAC: "poolDisjoint g (rq_route a) (rq_route c)"
    and disBC: "poolDisjoint g (rq_route b) (rq_route c)" by simp_all
  have pct: "rq_percent a + rq_percent b + rq_percent c = 100" if "bucketsKeyed S"
    using bucketsKeyed_hd[OF that A] bucketsKeyed_mem[OF that B bmem]
      bucketsKeyed_mem[OF that C cmem] by simp
  have good: "atLeastAsGood routeType (by' a + by' b + by' c) baseline"
    by (rule atLeastAsGood_step[OF better bestInvariant_good[OF inv]])
  have mem: "list_all (\<lambda>q. \<exists>percent quotes. S percent = Some quotes \<and> q \<in> set quotes)
               [a, b, c]"
    using A B C bmem cmem
    by (auto intro: exI[of _ percentA] exI[of _ percentB] exI[of _ "100 - percentA - percentB"])
  show ?thesis
    unfolding bestInvariant_def using disAB disAC disBC pct good mem by (simp add: ac_simps)
qed

lemma split2Loop_invariant:
  "split2Loop g routeType S by' ps best = Inr best' \<Longrightarrow>
   bestInvariant g routeType by' S baseline best \<Longrightarrow>
   bestInvariant g routeType by' S baseline best'"
proof (induction ps arbitrary: best)
  case Nil
  then show ?case by simp
next
  case (Cons percentA rest)
  from Cons.prems(1) obtain a as where A: "S percentA = Some (a # as)"
    by (auto split: option.splits list.splits)
  show ?case
  proof (cases "S (100 - percentA)")
    case None
    with Cons A show ?thesis by simp
  next
    case (Some candidatesB)
    show ?thesis
    proof (cases "findFirstRouteNotUsingUsedPools g [rq_route a] candidatesB")
      case None
      with Cons A Some show ?thesis by simp
    next
      case fB: (Some b)
      from Cons.prems(1) A Some fB have add: "currencyAdd (by' a) (by' b) = Inr (by' a + by' b)"
        by (auto split: sum.splits dest: currencyAdd_Inr)
      show ?thesis
      proof (cases "quoteCompFn routeType (by' a + by' b) (fst best)")
        case True
        have "bestInvariant g routeType by' S baseline (by' a + by' b, [a, b])"
          by (rule bestInvariant_pair[OF Cons.prems(2) A Some fB True])
        moreover from Cons.prems(1) A Some fB add True
        have "split2Loop g routeType S by' rest (by' a + by' b, [a, b]) = Inr best'" by simp
        ultimately show ?thesis by (rule Cons.IH[rotated])
      next
        case False
        with Cons A Some fB add show ?thesis by simp
      qed
    qed
  qed
qed

lemma split3Inner_invariant:
  "split3Inner g routeType S by' a (100 - percentA) ps best = Inr best' \<Longrightarrow>
   S percentA = Some (a # as) \<Longrightarrow>
   bestInvariant g routeType by' S baseline best \<Longrightarrow>
   bestInvariant g routeType by' S baseline best'"
proof (induction ps arbitrary: best)
  case Nil
  then show ?case by simp
next
  case (Cons percentB rest)
  from Cons.prems(1) obtain candidatesB where B: "S percentB = Some candidatesB"
    by (auto split: option.splits)
  show ?case
  proof (cases "findFirstRouteNotUsingUsedPools g [rq_route a] candidatesB")
    case None
    with Cons B show ?thesis by simp
  next
    case fB: (Some b)
    show ?thesis
    proof (cases "S (100 - percentA - percentB)")
      case None
      with Cons B fB show ?thesis by simp
    next
      case C: (Some candidatesC)
      show ?thesis
      proof (cases "findFirstRouteNotUsingUsedPools g [rq_route a, rq_route b] candidatesC")
        case None
        with Cons B fB C show ?thesis by simp
      next
        case fC: (Some c)
        from Cons.prems(1) B fB C fC
        have add1: "currencyAdd (by' a) (by' b) = Inr (by' a + by' b)"
          by (auto split: sum.splits dest: currencyAdd_Inr)
        from Cons.prems(1) B fB C fC add1
        have add2: "currencyAdd (by' a + by' b) (by' c) = Inr (by' a + by' b + by' c)"
          by (auto split: sum.splits dest: currencyAdd_Inr)
        show ?thesis
        proof (cases "quoteCompFn routeType (by' a + by' b + by' c) (fst best)")
          case True
          have "bestInvariant g routeType by' S baseline (by' a + by' b + by' c, [a, b, c])"
            by (rule bestInvariant_triple[OF Cons.prems(3,2) B fB C fC True])
          moreover from Cons.prems(1) B fB C fC add1 add2 True
          have "split3Inner g routeType S by' a (100 - percentA) rest
                  (by' a + by' b + by' c, [a, b, c]) = Inr best'" by simp
          ultimately show ?thesis using Cons.IH Cons.prems(2) by blast
        next
          case False
          with Cons B fB C fC add1 add2 show ?thesis by simp
        qed
      qed
    qed
  qed
qed

lemma split3Loop_invariant:
  "split3Loop g routeType S by' ps best = Inr best' \<Longrightarrow>
   bestInvariant g routeType by' S baseline best \<Longrightarrow>
   bestInvariant g routeType by' S baseline best'"
proof (induction ps arbitrary: best)
  case Nil
  then show ?case by simp
next
  case (Cons percentA rest)
  from Cons.prems(1) obtain a as where A: "S percentA = Some (a # as)"
    by (auto split: option.splits list.splits)
  from Cons.prems(1) A obtain mid where
    inner: "split3Inner g routeType S by' a (100 - percentA) rest best = Inr mid"
    and outer: "split3Loop g routeType S by' rest mid = Inr best'"
    by (auto split: sum.splits)
  from split3Inner_invariant[OF inner A Cons.prems(2)]
  have "bestInvariant g routeType by' S baseline mid" .
  with outer show ?case by (rule Cons.IH)
qed

lemma whileSplits_invariant:
  "whileSplits g routeType S by' percents maxSplits splits best = Inr best' \<Longrightarrow>
   bestInvariant g routeType by' S baseline best \<Longrightarrow>
   bestInvariant g routeType by' S baseline best'"
proof (induction g routeType S by' percents maxSplits splits best
       rule: whileSplits.induct)
  case (1 g routeType S by' percents maxSplits splits best)
  show ?case
  proof (cases "splits \<le> maxSplits")
    case False
    with "1.prems" show ?thesis by (subst (asm) whileSplits.simps) simp
  next
    case True
    let ?two = "if splits = 2
                then split2Loop g routeType S by' (take ((length percents + 1) div 2) percents) best
                else Inr best"
    from "1.prems"(1) True obtain best2 where two: "?two = Inr best2"
      by (subst (asm) whileSplits.simps) (auto split: sum.splits)
    let ?three = "if splits = 3 \<and> length (snd best2) = 2
                  then split3Loop g routeType S by' percents best2 else Inr best2"
    from "1.prems"(1) True two obtain best3 where three: "?three = Inr best3"
      and notfour: "splits \<noteq> 4"
      and rec: "whileSplits g routeType S by' percents maxSplits (splits + 1) best3 = Inr best'"
      by (subst (asm) whileSplits.simps) (auto split: sum.splits if_splits)
    have inv2: "bestInvariant g routeType by' S baseline best2"
    proof (cases "splits = 2")
      case True
      with two show ?thesis using split2Loop_invariant[OF _ "1.prems"(2)] by simp
    next
      case False
      with two "1.prems"(2) show ?thesis by simp
    qed
    have inv3: "bestInvariant g routeType by' S baseline best3"
    proof (cases "splits = 3 \<and> length (snd best2) = 2")
      case True
      with three show ?thesis using split3Loop_invariant[OF _ inv2] by simp
    next
      case False
      with three inv2 show ?thesis by auto
    qed
    show ?thesis
      by (rule "1.IH"[OF True two three notfour rec inv3])
  qed
qed

lemma atLeastAsGood_refl: "atLeastAsGood routeType a a"
  by (simp add: atLeastAsGood_def)

lemma atLeastAsGood_trans:
  "atLeastAsGood routeType a b \<Longrightarrow> atLeastAsGood routeType b c \<Longrightarrow> atLeastAsGood routeType a c"
  by (auto simp: atLeastAsGood_def split: if_splits)

lemma sort_key_hd_least:
  fixes f :: "'a \<Rightarrow> rat"
  assumes "sort_key f xs = y # ys" and "x \<in> set xs"
  shows "f y \<le> f x"
proof -
  have "sorted (map f (y # ys))" using sorted_sort_key[of f xs] assms(1) by simp
  moreover have "x \<in> set (y # ys)" using assms by (metis set_sort)
  ultimately show ?thesis by auto
qed

lemma sortQuotes_hd_best:
  assumes "sortQuotes routeType by' qs = first # rest" and "q \<in> set qs"
  shows "atLeastAsGood routeType (by' first) (by' q)"
proof (cases "routeType = EXACT_INPUT")
  case True
  with assms(1) have "sort_key (\<lambda>q. - by' q) qs = first # rest" by (simp add: sortQuotes_def)
  from sort_key_hd_least[OF this assms(2)] True show ?thesis by (simp add: atLeastAsGood_def)
next
  case False
  with assms(1) have "sort_key by' qs = first # rest" by (simp add: sortQuotes_def)
  from sort_key_hd_least[OF this assms(2)] False show ?thesis by (simp add: atLeastAsGood_def)
qed

lemma getBestSwapRouteBy_Some:
  assumes "getBestSwapRouteBy g routeType m percents by' maxSplits = Inr (Some plan)"
  obtains bucket first rest best where
    "m 100 = Some bucket" and "sortQuotes routeType by' bucket = first # rest"
    and "assemblePlan (snd best) = Inr plan"
    and "bestInvariant g routeType by'
           (\<lambda>percent. map_option (sortQuotes routeType by') (m percent)) (by' first) best"
proof -
  let ?S = "\<lambda>percent. map_option (sortQuotes routeType by') (m percent)"
  from assms obtain bucket where b: "m 100 = Some bucket"
    by (auto simp: getBestSwapRouteBy_def split: option.splits)
  from assms b obtain first rest where s: "sortQuotes routeType by' bucket = first # rest"
    by (auto simp: getBestSwapRouteBy_def split: list.splits)
  from assms b s obtain best where
    w: "whileSplits g routeType ?S by' percents maxSplits 2 (by' first, [first]) = Inr best"
    and p: "assemblePlan (snd best) = Inr plan"
    by (auto simp: getBestSwapRouteBy_def split: sum.splits)
  have S100: "?S 100 = Some (first # rest)" using b s by simp
  have "\<exists>percent quotes. ?S percent = Some quotes \<and> first \<in> set quotes"
    using S100 by (intro exI[of _ 100] exI[of _ "first # rest"]) simp
  then have init: "bestInvariant g routeType by' ?S (by' first) (by' first, [first])"
    unfolding bestInvariant_def
    using bucketsKeyed_hd[of ?S 100 first rest] S100 by (simp add: atLeastAsGood_refl)
  from whileSplits_invariant[OF w init] b s p show ?thesis by (rule that[rotated 3])
qed

lemma assemblePlan_fields:
  assumes "assemblePlan bestSwap = Inr plan" and "bestSwap \<noteq> []"
  shows "plan_quote plan = sum_list (map rq_quote bestSwap)"
    and "plan_quoteGasAdjusted plan = sum_list (map rq_quoteAdjustedForGas bestSwap)"
    and "plan_estimatedGasUsed plan = sum_list (map rq_gasEstimate bestSwap)"
    and "plan_routeAmounts plan
           = sort_key (\<lambda>ra. - ra_percentage ra) (map toRouteAmount bestSwap)"
proof -
  from assms(1) obtain quoteGasAdjusted quote where
    g: "sumAmounts (map rq_quoteAdjustedForGas bestSwap) = Inr quoteGasAdjusted"
    and q: "sumAmounts (map rq_quote bestSwap) = Inr quote"
    and plan: "plan = \<lparr>plan_quote = quote, plan_quoteGasAdjusted = quoteGasAdjusted,
                 plan_estimatedGasUsed = foldl (+) 0 (map rq_gasEstimate bestSwap),
                 plan_routeAmounts =
                   sort_key (\<lambda>ra. - ra_percentage ra) (map toRouteAmount bestSwap)\<rparr>"
    by (auto simp: assemblePlan_def split: sum.splits)
  from assms(2) have ne: "map rq_quoteAdjustedForGas bestSwap \<noteq> []" "map rq_quote bestSwap \<noteq> []"
    by simp_all
  show "plan_quote plan = sum_list (map rq_quote bestSwap)"
    using sumAmounts_Inr[OF ne(2) q] by (simp add: plan)
  show "plan_quoteGasAdjusted plan = sum_list (map rq_quoteAdjustedForGas bestSwap)"
    using sumAmounts_Inr[OF ne(1) g] by (simp add: plan)
  show "plan_estimatedGasUsed plan = sum_list (map rq_gasEstimate bestSwap)"
    by (simp add: plan foldl_plus_sum_list)
  show "plan_routeAmounts plan
          = sort_key (\<lambda>ra. - ra_percentage ra) (map toRouteAmount bestSwap)"
    by (simp add: plan)
qed

lemma sum_list_routeAmounts:
  "sum_list (map f (sort_key k (map toRouteAmount bestSwap)))
     = sum_list (map (f \<circ> toRouteAmount) bestSwap)"
  for f :: "RouteAmount \<Rightarrow> 'b::comm_monoid_add"
  by (simp add: sum_list_map_sort_key)

lemma pushQuotes_keyed:
  "bucketsKeyed m \<Longrightarrow> bucketsKeyed (pushQuotes gasModel routeType route pqs m)"
proof (induction pqs arbitrary: m)
  case Nil
  then show ?case by simp
next
  case (Cons pq pqs)
  obtain percent amountQuote where pq: "pq = (percent, amountQuote)" by (cases pq)
  let ?new = "newRouteWithValidQuote gasModel routeType route (aq_amount amountQuote)
                (the (aq_quote amountQuote)) percent (the (aq_gasEstimate amountQuote))"
  let ?m' = "m(percent \<mapsto> (case m percent of None \<Rightarrow> [] | Some quotes \<Rightarrow> quotes) @ [?new])"
  have upd: "bucketsKeyed ?m'"
    using Cons.prems unfolding bucketsKeyed_def
    by (auto simp: newRouteWithValidQuote_def split: option.splits)
  show ?case
  proof (cases "isValidQuote amountQuote")
    case True
    then have "pushQuotes gasModel routeType route (pq # pqs) m
                 = pushQuotes gasModel routeType route pqs ?m'" by (simp add: pq)
    then show ?thesis using Cons.IH[OF upd] by (simp only:)
  next
    case False
    then have "pushQuotes gasModel routeType route (pq # pqs) m
                 = pushQuotes gasModel routeType route pqs m" by (simp add: pq)
    then show ?thesis using Cons.IH[OF Cons.prems] by (simp only:)
  qed
qed

lemma bucketQuotes_keyed:
  "bucketsKeyed m \<Longrightarrow> bucketsKeyed (bucketQuotes gasModel routeType percents rwq m)"
proof (induction rwq arbitrary: m)
  case Nil
  then show ?case by simp
next
  case (Cons rq rwq)
  obtain route quotes where rq: "rq = (route, quotes)" by (cases rq)
  from Cons show ?case by (simp add: rq pushQuotes_keyed)
qed

lemma bucketsKeyed_empty: "bucketsKeyed Map.empty"
  by (simp add: bucketsKeyed_def)

lemma splitBuckets_plan:
  "getBestSwapRouteBy exampleAddress EXACT_INPUT splitBuckets [50, 100]
     rq_quoteAdjustedForGas 3 = Inr (Some splitPlan)"
  by code_simp

text \<open>
  C1. In every plan returned by \<^verbatim>\<open>getBestSwapRouteBy\<close>, any two route components have
  disjoint sets of pool addresses.
\<close>

theorem plan_components_pool_disjoint:
  assumes "getBestSwapRouteBy getAddress routeType percentToQuotes percents by' maxSplits
             = Inr (Some plan)"
    and "i < j" and "j < length (plan_routeAmounts plan)"
  shows "routePoolAddresses getAddress (ra_route (plan_routeAmounts plan ! i))
           \<inter> routePoolAddresses getAddress (ra_route (plan_routeAmounts plan ! j)) = {}"
proof -
  let ?R = "\<lambda>a b. poolDisjoint getAddress (ra_route a) (ra_route b)"
  from assms(1) obtain bucket first rest best where
    plan: "assemblePlan (snd best) = Inr plan"
    and inv: "bestInvariant getAddress routeType by'
           (\<lambda>percent. map_option (sortQuotes routeType by') (percentToQuotes percent))
           (by' first) best"
    by (rule getBestSwapRouteBy_Some)
  from inv have ne: "snd best \<noteq> []"
    and dis: "sorted_wrt (\<lambda>a b. poolDisjoint getAddress (rq_route a) (rq_route b)) (snd best)"
    unfolding bestInvariant_def by blast+
  have "sorted_wrt ?R (map toRouteAmount (snd best))"
    using dis by (simp add: sorted_wrt_map toRouteAmount_def)
  then have "sorted_wrt ?R (plan_routeAmounts plan)"
    unfolding assemblePlan_fields(4)[OF plan ne]
    by (rule sorted_wrt_sort_key[rotated]) (rule poolDisjoint_sym)
  then have "?R (plan_routeAmounts plan ! i) (plan_routeAmounts plan ! j)"
    using assms(2,3) by (simp add: sorted_wrt_iff_nth_less)
  then show ?thesis by (simp add: poolDisjoint_def)
qed

text \<open>
  The two components of the even split of the example quotes share no pool address.
\<close>

theorem plan_components_pool_disjoint_witness:
  "getBestSwapRouteBy exampleAddress EXACT_INPUT splitBuckets [50, 100]
     rq_quoteAdjustedForGas 3 = Inr (Some splitPlan)
   \<and> (0::nat) < 1 \<and> 1 < length (plan_routeAmounts splitPlan)
   \<and> routePoolAddresses exampleAddress (ra_route (plan_routeAmounts splitPlan ! 0))
        \<inter> routePoolAddresses exampleAddress (ra_route (plan_routeAmounts splitPlan ! 1)) = {}"
proof -
  have len: "1 < length (plan_routeAmounts splitPlan)" by (simp add: splitPlan_def)
  have lt: "(0::nat) < 1" by simp
  from plan_components_pool_disjoint[OF splitBuckets_plan lt len] splitBuckets_plan len
  show ?thesis by simp
qed

text \<open>
  C2. In every plan returned by \<^verbatim>\<open>getBestSwapRouteBy\<close> on buckets keyed by percentage, the
  percentages of \<^verbatim>\<open>routeAmounts\<close> sum to 100, and the plan's \<^verbatim>\<open>quote\<close>,
  \<^verbatim>\<open>quoteGasAdjusted\<close> and \<^verbatim>\<open>estimatedGasUsed\<close> are the sums of the components'
  \<^verbatim>\<open>quote\<close>, \<^verbatim>\<open>quoteGasAdjusted\<close> and \<^verbatim>\<open>estimatedGasUsed\<close>.
\<close>

theorem plan_sums:
  assumes "getBestSwapRouteBy getAddress routeType percentToQuotes percents by' maxSplits
             = Inr (Some plan)"
    and "bucketsKeyed percentToQuotes"
  shows "sum_list (map ra_percentage (plan_routeAmounts plan)) = 100
       \<and> plan_quote plan = sum_list (map ra_quote (plan_routeAmounts plan))
       \<and> plan_quoteGasAdjusted plan = sum_list (map ra_quoteGasAdjusted (plan_routeAmounts plan))
       \<and> plan_estimatedGasUsed plan
            = sum_list (map ra_estimatedGasUsed (plan_routeAmounts plan))"
proof -
  let ?S = "\<lambda>percent. map_option (sortQuotes routeType by') (percentToQuotes percent)"
  from assms(1) obtain bucket first rest best where
    plan: "assemblePlan (snd best) = Inr plan"
    and inv: "bestInvariant getAddress routeType by' ?S (by' first) best"
    by (rule getBestSwapRouteBy_Some)
  have keyed: "bucketsKeyed ?S" using assms(2) by (simp only: bucketsKeyed_sorted)
  from inv keyed have ne: "snd best \<noteq> []"
    and pct: "sum_list (map rq_percent (snd best)) = 100"
    unfolding bestInvariant_def by blast+
  have comp: "ra_percentage \<circ> toRouteAmount = rq_percent"
    "ra_quote \<circ> toRouteAmount = rq_quote"
    "ra_quoteGasAdjusted \<circ> toRouteAmount = rq_quoteAdjustedForGas"
    "ra_estimatedGasUsed \<circ> toRouteAmount = rq_gasEstimate"
    by (simp_all add: fun_eq_iff toRouteAmount_def)
  show ?thesis
    unfolding assemblePlan_fields[OF plan ne] sum_list_routeAmounts comp
    using pct by simp
qed

text \<open>
  The buckets built from the example quotes are keyed by percentage, and the sums hold
  of the plan returned for them.
\<close>

theorem plan_sums_witness:
  "getBestSwapRouteBy exampleAddress EXACT_INPUT splitBuckets [50, 100]
     rq_quoteAdjustedForGas 3 = Inr (Some splitPlan)
   \<and> bucketsKeyed splitBuckets
   \<and> sum_list (map ra_percentage (plan_routeAmounts splitPlan)) = 100
   \<and> plan_quote splitPlan = 115
   \<and> sum_list (map ra_quote (plan_routeAmounts splitPlan)) = 115
   \<and> plan_quoteGasAdjusted splitPlan
        = sum_list (map ra_quoteGasAdjusted (plan_routeAmounts splitPlan))
   \<and> plan_estimatedGasUsed splitPlan
        = sum_list (map ra_estimatedGasUsed (plan_routeAmounts splitPlan))"
proof -
  have keyed: "bucketsKeyed splitBuckets"
    unfolding splitBuckets_def by (rule bucketQuotes_keyed[OF bucketsKeyed_empty])
  have q: "plan_quote splitPlan = 115" by (simp add: splitPlan_def)
  from plan_sums[OF splitBuckets_plan keyed] splitBuckets_plan keyed q
  show ?thesis by simp
qed

text \<open>
  C8. When \<^verbatim>\<open>getBestSwapRouteBy\<close> returns a plan, the plan's gas-adjusted quote is at
  least as good as the gas-adjusted quote of every quote in the 100% bucket, hence of the
  best single route: greater or equal for \<^verbatim>\<open>EXACT_INPUT\<close>, less or equal for
  \<^verbatim>\<open>EXACT_OUTPUT\<close>.
\<close>

theorem plan_at_least_baseline:
  assumes "getBestSwapRouteBy getAddress routeType percentToQuotes percents
             rq_quoteAdjustedForGas maxSplits = Inr (Some plan)"
    and "percentToQuotes 100 = Some bucket" and "q \<in> set bucket"
  shows "(routeType = EXACT_INPUT \<longrightarrow> plan_quoteGasAdjusted plan \<ge> rq_quoteAdjustedForGas q)
       \<and> (routeType = EXACT_OUTPUT \<longrightarrow> plan_quoteGasAdjusted plan \<le> rq_quoteAdjustedForGas q)"
proof -
  let ?by = rq_quoteAdjustedForGas
  let ?S = "\<lambda>percent. map_option (sortQuotes routeType ?by) (percentToQuotes percent)"
  from assms(1) obtain bucket' first rest best where
    b: "percentToQuotes 100 = Some bucket'"
    and s: "sortQuotes routeType ?by bucket' = first # rest"
    and plan: "assemblePlan (snd best) = Inr plan"
    and inv: "bestInvariant getAddress routeType ?by ?S (?by first) best"
    by (rule getBestSwapRouteBy_Some)
  from b assms(2) have "bucket' = bucket" by simp
  with s assms(3) have base: "atLeastAsGood routeType (?by first) (?by q)"
    by (auto intro: sortQuotes_hd_best)
  from inv have ne: "snd best \<noteq> []" and sum: "fst best = sum_list (map ?by (snd best))"
    and good: "atLeastAsGood routeType (fst best) (?by first)"
    unfolding bestInvariant_def by blast+
  have "plan_quoteGasAdjusted plan = fst best"
    unfolding assemblePlan_fields(2)[OF plan ne] sum ..
  with atLeastAsGood_trans[OF good base]
  have "atLeastAsGood routeType (plan_quoteGasAdjusted plan) (?by q)" by simp
  then show ?thesis by (cases routeType) (simp_all add: atLeastAsGood_def)
qed

lemma splitBuckets_baseline: "splitBuckets 100 = Some baselineBucket"
  by code_simp

text \<open>
  The even split of the example quotes (113 after gas) is at least as good as the best
  single route (99 after gas).
\<close>

theorem plan_at_least_baseline_witness:
  "getBestSwapRouteBy exampleAddress EXACT_INPUT splitBuckets [50, 100]
     rq_quoteAdjustedForGas 3 = Inr (Some splitPlan)
   \<and> splitBuckets 100 = Some baselineBucket
   \<and> hd baselineBucket \<in> set baselineBucket
   \<and> plan_quoteGasAdjusted splitPlan \<ge> rq_quoteAdjustedForGas (hd baselineBucket)
   \<and> plan_quoteGasAdjusted splitPlan = 113
   \<and> rq_quoteAdjustedForGas (hd baselineBucket) = 99"
proof -
  have mem: "hd baselineBucket \<in> set baselineBucket" by (simp add: baselineBucket_def)
  have v: "plan_quoteGasAdjusted splitPlan = 113" "rq_quoteAdjustedForGas (hd baselineBucket) = 99"
    by (simp_all add: splitPlan_def baselineBucket_def)
  from plan_at_least_baseline[OF splitBuckets_plan splitBuckets_baseline mem]
  have "plan_quoteGasAdjusted splitPlan \<ge> rq_quoteAdjustedForGas (hd baselineBucket)" by simp
  with splitBuckets_plan splitBuckets_baseline mem v show ?thesis by simp
qed

lemma ran_upd_nonempty:
  "[] \<notin> ran m \<Longrightarrow> v \<noteq> [] \<Longrightarrow> [] \<notin> ran (m(k \<mapsto> v))"
  by (auto simp: ran_def split: if_splits)

lemma pushQuotes_valid:
  "isValidQuote amountQuote \<Longrightarrow>
   pushQuotes gasModel routeType route ((percent, amountQuote) # rest) m =
   pushQuotes gasModel routeType route rest
     (m(percent \<mapsto> (case m percent of None \<Rightarrow> [] | Some quotes \<Rightarrow> quotes)
        @ [newRouteWithValidQuote gasModel routeType route (aq_amount amountQuote)
             (the (aq_quote amountQuote)) percent (the (aq_gasEstimate amountQuote))]))"
  by simp

lemma pushQuotes_invalid:
  "\<not> isValidQuote amountQuote \<Longrightarrow>
   pushQuotes gasModel routeType route ((percent, amountQuote) # rest) m =
   pushQuotes gasModel routeType route rest m"
  by simp

lemma pushQuotes_nonempty:
  "[] \<notin> ran m \<Longrightarrow> [] \<notin> ran (pushQuotes gasModel routeType route pqs m)"
proof (induction pqs arbitrary: m)
  case Nil
  then show ?case by simp
next
  case (Cons pq pqs)
  obtain percent amountQuote where pq: "pq = (percent, amountQuote)" by (cases pq)
  show ?case
  proof (cases "isValidQuote amountQuote")
    case True
    show ?thesis
      unfolding pq pushQuotes_valid[OF True]
      by (rule Cons.IH, rule ran_upd_nonempty[OF Cons.prems]) simp
  next
    case False
    show ?thesis
      unfolding pq pushQuotes_invalid[OF False] by (rule Cons.IH[OF Cons.prems])
  qed
qed

lemma bucketQuotes_nonempty:
  "[] \<notin> ran m \<Longrightarrow> [] \<notin> ran (bucketQuotes gasModel routeType percents rwq m)"
proof (induction rwq arbitrary: m)
  case Nil
  then show ?case by simp
next
  case (Cons rq rwq)
  obtain route quotes where rq: "rq = (route, quotes)" by (cases rq)
  show ?case
    unfolding rq bucketQuotes.simps
    by (rule Cons.IH, rule pushQuotes_nonempty, rule Cons.prems)
qed

lemma pushQuotes_dom:
  "p \<in> dom (pushQuotes gasModel routeType route pqs m) \<longleftrightarrow>
     p \<in> dom m \<or> list_ex (\<lambda>pq. fst pq = p \<and> isValidQuote (snd pq)) pqs"
proof (induction pqs arbitrary: m)
  case Nil
  then show ?case by simp
next
  case (Cons pq pqs)
  obtain percent amountQuote where pq: "pq = (percent, amountQuote)" by (cases pq)
  show ?case
  proof (cases "isValidQuote amountQuote")
    case True
    have "p \<in> dom (m(percent \<mapsto> v)) \<longleftrightarrow> p \<in> dom m \<or> p = percent" for v
      by auto
    then show ?thesis
      unfolding pq pushQuotes_valid[OF True] Cons.IH using True by auto
  next
    case False
    show ?thesis
      unfolding pq pushQuotes_invalid[OF False] Cons.IH using False by auto
  qed
qed

lemma bucketQuotes_dom:
  "p \<in> dom (bucketQuotes gasModel routeType percents rwq m) \<longleftrightarrow>
     p \<in> dom m \<or> hasValidQuoteAt percents rwq p"
proof (induction rwq arbitrary: m)
  case Nil
  then show ?case by (simp add: hasValidQuoteAt_def)
next
  case (Cons rq rwq)
  obtain route quotes where rq: "rq = (route, quotes)" by (cases rq)
  show ?case
    unfolding rq bucketQuotes.simps Cons.IH pushQuotes_dom
    by (auto simp: hasValidQuoteAt_def)
qed

lemma bucketQuotes_head:
  assumes "hasValidQuoteAt percents rwq p"
  shows "\<exists>a as. bucketQuotes gasModel routeType percents rwq Map.empty p = Some (a # as)"
proof -
  have "p \<in> dom (bucketQuotes gasModel routeType percents rwq Map.empty)"
    using assms by (simp only: bucketQuotes_dom) simp
  then obtain qs where qs: "bucketQuotes gasModel routeType percents rwq Map.empty p = Some qs"
    by blast
  have "[] \<notin> ran (bucketQuotes gasModel routeType percents rwq Map.empty)"
    by (rule bucketQuotes_nonempty) simp
  with qs have "qs \<noteq> []" by (auto simp: ran_def)
  with qs show ?thesis by (cases qs) auto
qed

lemma bucketQuotes_missing:
  assumes "\<not> hasValidQuoteAt percents rwq p"
  shows "bucketQuotes gasModel routeType percents rwq Map.empty p = None"
proof -
  have "p \<notin> dom (bucketQuotes gasModel routeType percents rwq Map.empty)"
    using assms by (simp only: bucketQuotes_dom) simp
  then show ?thesis by blast
qed


lemma add_below:
  fixes a b c B :: rat
  assumes "3 * B \<le> 2 ^ 256" and "a < B" and "b < B"
  shows "a + b < 2 ^ 256"
proof -
  have "(0::rat) < 2 ^ 256" by simp
  with assms show ?thesis by linarith
qed

lemma add3_below:
  fixes a b c B :: rat
  assumes "3 * B \<le> 2 ^ 256" and "a < B" and "b < B" and "c < B"
  shows "a + b + c < 2 ^ 256"
  using assms by linarith

lemma quotesBelow_mem:
  "quotesBelow B by' S \<Longrightarrow> S p = Some qs \<Longrightarrow> q \<in> set qs \<Longrightarrow>
   by' q < B \<and> rq_quote q < B \<and> rq_quoteAdjustedForGas q < B"
  unfolding quotesBelow_def quoteBelow_def list_all_iff by blast

lemma quotesBelow_sorted:
  "quotesBelow B by' (\<lambda>percent. map_option (sortQuotes routeType f) (m percent))
     = quotesBelow B by' m"
proof -
  have "quotesBelow B by' (\<lambda>percent. map_option (sortQuotes routeType f) (m percent))
          \<longleftrightarrow> (\<forall>percent quotes. m percent = Some quotes \<longrightarrow>
                 list_all (quoteBelow B by') (sortQuotes routeType f quotes))"
    unfolding quotesBelow_def by auto
  then show ?thesis by (simp add: quotesBelow_def list_all_iff set_sortQuotes)
qed

lemma findFirst_mem:
  "findFirstRouteNotUsingUsedPools g used candidates = Some q \<Longrightarrow> q \<in> set candidates"
  by (rule findFirst_Some(1))

lemma split2Loop_total:
  assumes bound: "3 * B \<le> 2 ^ 256" and below: "quotesBelow B by' S"
  shows "\<forall>p\<in>set ps. \<exists>a as. S p = Some (a # as) \<Longrightarrow>
         \<exists>best'. split2Loop g routeType S by' ps best = Inr best'"
proof (induction ps arbitrary: best)
  case Nil
  then show ?case by simp
next
  case (Cons percentA rest)
  from Cons.prems obtain a as where A: "S percentA = Some (a # as)" by auto
  have IH: "\<exists>best'. split2Loop g routeType S by' rest x = Inr best'" for x
    using Cons.IH Cons.prems by simp
  have a: "by' a < B" using quotesBelow_mem[OF below A, of a] by simp
  show ?case
  proof (cases "S (100 - percentA)")
    case None
    with A IH show ?thesis by simp
  next
    case (Some candidatesB)
    show ?thesis
    proof (cases "findFirstRouteNotUsingUsedPools g [rq_route a] candidatesB")
      case None
      with A Some IH show ?thesis by simp
    next
      case fB: (Some b)
      have "by' b < B" using quotesBelow_mem[OF below Some findFirst_mem[OF fB]] by simp
      from currencyAdd_below[OF add_below[OF bound a this]] A Some fB IH
      show ?thesis by simp
    qed
  qed
qed

lemma split3Inner_total:
  assumes bound: "3 * B \<le> 2 ^ 256" and below: "quotesBelow B by' S" and a: "by' a < B"
  shows "\<forall>p\<in>set ps. \<exists>a as. S p = Some (a # as) \<Longrightarrow>
         \<exists>best'. split3Inner g routeType S by' a remaining ps best = Inr best'"
proof (induction ps arbitrary: best)
  case Nil
  then show ?case by simp
next
  case (Cons percentB rest)
  from Cons.prems obtain b' bs where B: "S percentB = Some (b' # bs)" by auto
  have IH: "\<exists>best'. split3Inner g routeType S by' a remaining rest x = Inr best'" for x
    using Cons.IH Cons.prems by simp
  show ?case
  proof (cases "findFirstRouteNotUsingUsedPools g [rq_route a] (b' # bs)")
    case None
    with B IH show ?thesis by simp
  next
    case fB: (Some b)
    have b: "by' b < B" using quotesBelow_mem[OF below B findFirst_mem[OF fB]] by simp
    show ?thesis
    proof (cases "S (remaining - percentB)")
      case None
      with B fB IH show ?thesis by simp
    next
      case C: (Some candidatesC)
      show ?thesis
      proof (cases "findFirstRouteNotUsingUsedPools g [rq_route a, rq_route b] candidatesC")
        case None
        with B fB C IH show ?thesis by simp
      next
        case fC: (Some c)
        have c: "by' c < B" using quotesBelow_mem[OF below C findFirst_mem[OF fC]] by simp
        from currencyAdd_below[OF add_below[OF bound a b]]
          currencyAdd_below[OF add3_below[OF bound a b c]] B fB C fC IH
        show ?thesis by simp
      qed
    qed
  qed
qed

lemma split3Loop_total:
  assumes bound: "3 * B \<le> 2 ^ 256" and below: "quotesBelow B by' S"
  shows "\<forall>p\<in>set ps. \<exists>a as. S p = Some (a # as) \<Longrightarrow>
         \<exists>best'. split3Loop g routeType S by' ps best = Inr best'"
proof (induction ps arbitrary: best)
  case Nil
  then show ?case by simp
next
  case (Cons percentA rest)
  from Cons.prems obtain a as where A: "S percentA = Some (a # as)" by auto
  have a: "by' a < B" using quotesBelow_mem[OF below A, of a] by simp
  have rest: "\<forall>p\<in>set rest. \<exists>a as. S p = Some (a # as)" using Cons.prems by simp
  obtain mid where mid: "split3Inner g routeType S by' a (100 - percentA) rest best = Inr mid"
    using split3Inner_total[OF bound below a rest] by blast
  from Cons.IH[OF rest] obtain best' where "split3Loop g routeType S by' rest mid = Inr best'"
    by blast
  with A mid show ?case by simp
qed

lemma whileSplits_total:
  assumes bound: "3 * B \<le> 2 ^ 256" and below: "quotesBelow B by' S"
    and ok: "\<forall>p\<in>set percents. \<exists>a as. S p = Some (a # as)"
  shows "maxSplits < 4 \<Longrightarrow>
           \<exists>best'. whileSplits g routeType S by' percents maxSplits 2 best = Inr best'"
    and "4 \<le> maxSplits \<Longrightarrow>
           whileSplits g routeType S by' percents maxSplits 2 best = Inl FourSplitsNotSupported"
proof -
  have "\<forall>p\<in>set (take ((length percents + 1) div 2) percents). \<exists>a as. S p = Some (a # as)"
    using ok by (meson in_set_takeD)
  from split2Loop_total[OF bound below this] obtain best2 where
    two: "split2Loop g routeType S by' (take ((length percents + 1) div 2) percents) best
            = Inr best2" by blast
  from split3Loop_total[OF bound below ok] obtain best3 where
    three: "split3Loop g routeType S by' percents best2 = Inr best3" by blast
  note unfold = whileSplits.simps[of g routeType S by' percents maxSplits 2]
    whileSplits.simps[of g routeType S by' percents maxSplits 3]
    whileSplits.simps[of g routeType S by' percents maxSplits 4]
  show "\<exists>best'. whileSplits g routeType S by' percents maxSplits 2 best = Inr best'"
    if "maxSplits < 4"
    using that two three by (simp add: unfold)
  show "whileSplits g routeType S by' percents maxSplits 2 best = Inl FourSplitsNotSupported"
    if "4 \<le> maxSplits"
    using that two three by (simp add: unfold)
qed

lemma sumAmounts_total:
  assumes bound: "3 * B \<le> 2 ^ 256" and "xs \<noteq> []" and "length xs \<le> 3"
    and "\<forall>x\<in>set xs. x < B"
  shows "sumAmounts xs = Inr (sum_list xs)"
proof -
  from assms(2,3) consider a where "xs = [a]" | a b where "xs = [a, b]"
    | a b c where "xs = [a, b, c]"
    by (cases xs; cases "tl xs"; cases "tl (tl xs)"; cases "tl (tl (tl xs))") auto
  then show ?thesis
  proof cases
    case 1
    then show ?thesis by (simp add: sumAmounts_def)
  next
    case 2
    with assms(4) have "a < B" "b < B" by simp_all
    from currencyAdd_below[OF add_below[OF bound this]] 2 show ?thesis
      by (simp add: sumAmounts_def)
  next
    case 3
    with assms(4) have "a < B" "b < B" "c < B" by simp_all
    from currencyAdd_below[OF add_below[OF bound this(1,2)]]
      currencyAdd_below[OF add3_below[OF bound this]] 3 show ?thesis
      by (simp add: sumAmounts_def)
  qed
qed

lemma assemblePlan_total:
  assumes bound: "3 * B \<le> 2 ^ 256" and below: "quotesBelow B by' S"
    and inv: "bestInvariant g routeType by' S baseline best"
  shows "\<exists>plan. assemblePlan (snd best) = Inr plan"
proof -
  from inv have ne: "snd best \<noteq> []" and len: "length (snd best) \<le> 3"
    and mem: "list_all (\<lambda>q. \<exists>percent quotes. S percent = Some quotes \<and> q \<in> set quotes) (snd best)"
    unfolding bestInvariant_def by blast+
  have lt: "rq_quote q < B \<and> rq_quoteAdjustedForGas q < B" if "q \<in> set (snd best)" for q
  proof -
    from mem that obtain percent quotes where "S percent = Some quotes" "q \<in> set quotes"
      by (auto simp: list_all_iff)
    from quotesBelow_mem[OF below this] show ?thesis by simp
  qed
  have "sumAmounts (map rq_quoteAdjustedForGas (snd best))
          = Inr (sum_list (map rq_quoteAdjustedForGas (snd best)))"
    using ne len lt by (intro sumAmounts_total[OF bound]) auto
  moreover have "sumAmounts (map rq_quote (snd best)) = Inr (sum_list (map rq_quote (snd best)))"
    using ne len lt by (intro sumAmounts_total[OF bound]) auto
  ultimately show ?thesis by (simp add: assemblePlan_def)
qed

lemma sorted_bucket_head:
  "bucket = Some (a # as) \<Longrightarrow>
   \<exists>a' as'. map_option (sortQuotes routeType by') bucket = Some (a' # as')"
  using sortQuotes_eq_Nil[of routeType by' "a # as"]
  by (cases "sortQuotes routeType by' (a # as)") auto

lemma bucket_filled:
  "[] \<notin> ran m \<Longrightarrow> m p \<noteq> None \<Longrightarrow> \<exists>a as. m p = Some (a # as)"
proof -
  assume ne: "[] \<notin> ran m" and "m p \<noteq> None"
  then obtain qs where qs: "m p = Some qs" by blast
  with ne have "qs \<noteq> []" by (auto simp: ran_def)
  with qs show ?thesis by (cases qs) auto
qed

text \<open>
  C3, as amended. \<^verbatim>\<open>getBestSwapRouteBy\<close> returns \<^verbatim>\<open>undefined\<close>, the null plan of
  \<^verbatim>\<open>getBestSwapRoute\<close>, exactly when the 100% bucket is missing, that is when no valid
  quote at 100% was left after dropping the invalid ones (\<open>bucketQuotes_head\<close>,
  \<open>bucketQuotes_missing\<close>); this is a result, not an error. When the 100% bucket
  exists, no bucket is empty, every percentage has a bucket and every quote is below a
  bound whose triple is at most \<open>2^256\<close>, a plan is returned if \<^verbatim>\<open>maxSplits\<close> is below
  4, and \<^verbatim>\<open>Four splits is not supported\<close> is raised if \<^verbatim>\<open>maxSplits\<close> is 4 or more.
\<close>

theorem getBestSwapRouteBy_null_iff:
  "(getBestSwapRouteBy getAddress routeType percentToQuotes percents by' maxSplits = Inr None
      \<longleftrightarrow> percentToQuotes 100 = None)
   \<and> (percentToQuotes 100 \<noteq> None \<and> [] \<notin> ran percentToQuotes
        \<and> list_all (\<lambda>percent. percentToQuotes percent \<noteq> None) percents
        \<and> 3 * bound \<le> 2 ^ 256 \<and> quotesBelow bound by' percentToQuotes \<and> maxSplits < 4
      \<longrightarrow> (\<exists>plan. getBestSwapRouteBy getAddress routeType percentToQuotes percents by' maxSplits
                     = Inr (Some plan)))
   \<and> (percentToQuotes 100 \<noteq> None \<and> [] \<notin> ran percentToQuotes
        \<and> list_all (\<lambda>percent. percentToQuotes percent \<noteq> None) percents
        \<and> 3 * bound \<le> 2 ^ 256 \<and> quotesBelow bound by' percentToQuotes \<and> 4 \<le> maxSplits
      \<longrightarrow> getBestSwapRouteBy getAddress routeType percentToQuotes percents by' maxSplits
            = Inl FourSplitsNotSupported)"
proof -
  let ?m = percentToQuotes
  let ?S = "\<lambda>percent. map_option (sortQuotes routeType by') (?m percent)"
  let ?res = "getBestSwapRouteBy getAddress routeType ?m percents by' maxSplits"
  have null: "?res = Inr None \<longleftrightarrow> ?m 100 = None"
    by (auto simp: getBestSwapRouteBy_def split: option.splits list.splits sum.splits)
  have run: "(maxSplits < 4 \<longrightarrow> (\<exists>plan. ?res = Inr (Some plan)))
           \<and> (4 \<le> maxSplits \<longrightarrow> ?res = Inl FourSplitsNotSupported)"
    if v: "?m 100 \<noteq> None" and ne: "[] \<notin> ran ?m"
      and all: "list_all (\<lambda>percent. ?m percent \<noteq> None) percents"
      and bound: "3 * bound \<le> 2 ^ 256" and below: "quotesBelow bound by' ?m"
  proof -
    from bucket_filled[OF ne v] obtain a as where "?m 100 = Some (a # as)" by blast
    from sorted_bucket_head[OF this, of routeType by']
    obtain first rest where S100: "?S 100 = Some (first # rest)" by blast
    have ok: "\<forall>p\<in>set percents. \<exists>a as. ?S p = Some (a # as)"
    proof
      fix p assume "p \<in> set percents"
      with all have "?m p \<noteq> None" by (simp add: list_all_iff)
      from bucket_filled[OF ne this] obtain a as where "?m p = Some (a # as)" by blast
      from sorted_bucket_head[OF this, of routeType by']
      show "\<exists>a as. ?S p = Some (a # as)" .
    qed
    have belowS: "quotesBelow bound by' ?S" using below by (simp only: quotesBelow_sorted)
    let ?start = "(by' first, [first])"
    have res: "?res = (case whileSplits getAddress routeType ?S by' percents maxSplits 2 ?start of
                        Inl e \<Rightarrow> Inl e
                      | Inr best \<Rightarrow> (case assemblePlan (snd best) of
                                        Inl e \<Rightarrow> Inl e | Inr plan \<Rightarrow> Inr (Some plan)))"
      using S100 by (auto simp: getBestSwapRouteBy_def)
    have "\<exists>percent quotes. ?S percent = Some quotes \<and> first \<in> set quotes"
      using S100 by (intro exI[of _ 100] exI[of _ "first # rest"]) simp
    then have init: "bestInvariant getAddress routeType by' ?S (by' first) ?start"
      unfolding bestInvariant_def
      using bucketsKeyed_hd[of ?S 100 first rest] S100 by (simp add: atLeastAsGood_refl)
    have small: "\<exists>plan. ?res = Inr (Some plan)" if "maxSplits < 4"
    proof -
      from whileSplits_total(1)[OF bound belowS ok that, of getAddress routeType ?start]
      obtain best where w: "whileSplits getAddress routeType ?S by' percents maxSplits 2 ?start
                              = Inr best" by blast
      from whileSplits_invariant[OF w init]
      have "bestInvariant getAddress routeType by' ?S (by' first) best" .
      from assemblePlan_total[OF bound belowS this]
      obtain plan where "assemblePlan (snd best) = Inr plan" by blast
      with w show ?thesis unfolding res by simp
    qed
    have large: "?res = Inl FourSplitsNotSupported" if "4 \<le> maxSplits"
      using whileSplits_total(2)[OF bound belowS ok that, of getAddress routeType ?start]
      unfolding res by simp
    from small large show ?thesis by blast
  qed
  show ?thesis using null run by blast
qed

text \<open>
  The bucketing of \<^verbatim>\<open>getBestSwapRoute\<close> keeps the quotes below a bound when every valid
  quote it constructs is below it.
\<close>

lemma pushQuotes_below:
  assumes "quotesBelow B by' m"
    and "list_all (\<lambda>pq. isValidQuote (snd pq) \<longrightarrow>
           quoteBelow B by' (newRouteWithValidQuote gasModel routeType route (aq_amount (snd pq))
              (the (aq_quote (snd pq))) (fst pq) (the (aq_gasEstimate (snd pq))))) pqs"
  shows "quotesBelow B by' (pushQuotes gasModel routeType route pqs m)"
  using assms
proof (induction pqs arbitrary: m)
  case Nil
  then show ?case by simp
next
  case (Cons pq pqs)
  obtain percent amountQuote where pq: "pq = (percent, amountQuote)" by (cases pq)
  from Cons.prems(2) have rest: "list_all (\<lambda>pq. isValidQuote (snd pq) \<longrightarrow>
           quoteBelow B by' (newRouteWithValidQuote gasModel routeType route (aq_amount (snd pq))
              (the (aq_quote (snd pq))) (fst pq) (the (aq_gasEstimate (snd pq))))) pqs"
    by simp
  show ?case
  proof (cases "isValidQuote amountQuote")
    case True
    let ?new = "newRouteWithValidQuote gasModel routeType route (aq_amount amountQuote)
                  (the (aq_quote amountQuote)) percent (the (aq_gasEstimate amountQuote))"
    from Cons.prems(2) True have new: "quoteBelow B by' ?new" by (simp add: pq)
    have "quotesBelow B by'
            (m(percent \<mapsto> (case m percent of None \<Rightarrow> [] | Some quotes \<Rightarrow> quotes) @ [?new]))"
      using Cons.prems(1) new unfolding quotesBelow_def
      by (auto split: option.splits)
    from Cons.IH[OF this rest] show ?thesis
      unfolding pq pushQuotes_valid[OF True] .
  next
    case False
    from Cons.IH[OF Cons.prems(1) rest] show ?thesis
      unfolding pq pushQuotes_invalid[OF False] .
  qed
qed

lemma bucketQuotes_below:
  assumes "quotesBelow B by' m"
    and "list_all (\<lambda>rq. list_all (\<lambda>pq. isValidQuote (snd pq) \<longrightarrow>
           quoteBelow B by' (newRouteWithValidQuote gasModel routeType (fst rq)
              (aq_amount (snd pq)) (the (aq_quote (snd pq))) (fst pq)
              (the (aq_gasEstimate (snd pq))))) (zip percents (snd rq))) rwq"
  shows "quotesBelow B by' (bucketQuotes gasModel routeType percents rwq m)"
  using assms
proof (induction rwq arbitrary: m)
  case Nil
  then show ?case by simp
next
  case (Cons rq rwq)
  obtain route quotes where rq: "rq = (route, quotes)" by (cases rq)
  from Cons.prems(2) have
    this_route: "list_all (\<lambda>pq. isValidQuote (snd pq) \<longrightarrow>
           quoteBelow B by' (newRouteWithValidQuote gasModel routeType route
              (aq_amount (snd pq)) (the (aq_quote (snd pq))) (fst pq)
              (the (aq_gasEstimate (snd pq))))) (zip percents quotes)"
    and rest: "list_all (\<lambda>rq. list_all (\<lambda>pq. isValidQuote (snd pq) \<longrightarrow>
           quoteBelow B by' (newRouteWithValidQuote gasModel routeType (fst rq)
              (aq_amount (snd pq)) (the (aq_quote (snd pq))) (fst pq)
              (the (aq_gasEstimate (snd pq))))) (zip percents (snd rq))) rwq"
    by (simp_all add: rq)
  from Cons.IH[OF pushQuotes_below[OF Cons.prems(1) this_route] rest]
  show ?case by (simp add: rq)
qed

lemma splitBuckets_below: "quotesBelow 200 rq_quoteAdjustedForGas splitBuckets"
  unfolding splitBuckets_def
proof (rule bucketQuotes_below)
  show "quotesBelow 200 rq_quoteAdjustedForGas Map.empty" by (simp add: quotesBelow_def)
  show "list_all (\<lambda>rq. list_all (\<lambda>pq. isValidQuote (snd pq) \<longrightarrow>
           quoteBelow 200 rq_quoteAdjustedForGas (newRouteWithValidQuote exampleGasModel EXACT_INPUT
              (fst rq) (aq_amount (snd pq)) (the (aq_quote (snd pq))) (fst pq)
              (the (aq_gasEstimate (snd pq))))) (zip [50, 100] (snd rq))) splitQuotes"
    by code_simp
qed

text \<open>
  The buckets of the example quotes have a quote at every percentage, none above 200;
  with \<^verbatim>\<open>maxSplits = 3\<close> a plan is returned.
\<close>

theorem getBestSwapRouteBy_null_iff_witness:
  "splitBuckets 100 \<noteq> None \<and> [] \<notin> ran splitBuckets
   \<and> list_all (\<lambda>percent. splitBuckets percent \<noteq> None) [50, 100]
   \<and> 3 * (200::rat) \<le> 2 ^ 256 \<and> quotesBelow 200 rq_quoteAdjustedForGas splitBuckets
   \<and> (3::int) < 4
   \<and> (\<exists>plan. getBestSwapRouteBy exampleAddress EXACT_INPUT splitBuckets [50, 100]
                rq_quoteAdjustedForGas 3 = Inr (Some plan))
   \<and> getBestSwapRouteBy exampleAddress EXACT_INPUT splitBuckets [50, 100]
        rq_quoteAdjustedForGas 3 \<noteq> Inr None"
proof -
  have v: "splitBuckets 100 \<noteq> None" by code_simp
  have ne: "[] \<notin> ran splitBuckets"
    unfolding splitBuckets_def by (rule bucketQuotes_nonempty) simp
  have all: "list_all (\<lambda>percent. splitBuckets percent \<noteq> None) [50, 100]" by code_simp
  have bound: "3 * (200::rat) \<le> 2 ^ 256" by simp
  from getBestSwapRouteBy_null_iff[of exampleAddress EXACT_INPUT splitBuckets "[50, 100]"
      rq_quoteAdjustedForGas 3 200] v ne all bound splitBuckets_below
  show ?thesis by simp
qed

text \<open>
  C3, as stated, promises a plan whenever the 100% bucket is not empty. With
  \<^verbatim>\<open>maxSplits = 3\<close> and two routes that each quote \<open>2^255 + 1\<close> at 50%, every
  percentage has a valid quote, yet the 2-split loop adds the two gas-adjusted quotes to
  \<open>2^256\<close> and \<^verbatim>\<open>CurrencyAmount.add\<close> raises \<^verbatim>\<open>Invariant failed: AMOUNT\<close>.
\<close>

theorem getBestSwapRoute_amount_overflow:
  "hasValidQuoteAt [50, 100] hugeQuotes 100
   \<and> list_all (hasValidQuoteAt [50, 100] hugeQuotes) [50, 100]
   \<and> getBestSwapRoute exampleAddress [50, 100] hugeQuotes EXACT_INPUT exampleGasModel 3
       = Inl InvariantAMOUNT"
  by code_simp

text \<open>
  With \<^verbatim>\<open>maxSplits = 4\<close> the example quotes, valid at 100%, end in the error
  \<^verbatim>\<open>Four splits is not supported\<close>.
\<close>

lemma getBestSwapRoute_four_splits_error:
  "hasValidQuoteAt [50, 100] splitQuotes 100
   \<and> getBestSwapRoute exampleAddress [50, 100] splitQuotes EXACT_INPUT exampleGasModel 4
       = Inl FourSplitsNotSupported"
  by code_simp

text \<open>
  A search that ends in a 3-split: the plan has three components ordered by percentage,
  and its routes are pairwise pool-disjoint. Capped at two splits, the same quotes give
  128 after gas.
\<close>

lemma threeWay_plan:
  "getBestSwapRoute exampleAddress [25, 50, 75, 100] threeWayQuotes EXACT_INPUT exampleGasModel 3
     = Inr (Some threeWayPlan)"
  by code_simp

lemma threeWay_two_splits:
  "map_sum id (map_option plan_quoteGasAdjusted)
     (getBestSwapRoute exampleAddress [25, 50, 75, 100] threeWayQuotes EXACT_INPUT
        exampleGasModel 2) = Inr (Some 128)"
  by code_simp

lemma threeWay_disjoint:
  "routePoolAddresses exampleAddress routeAB \<inter> routePoolAddresses exampleAddress routeACB = {}
   \<and> routePoolAddresses exampleAddress routeAB \<inter> routePoolAddresses exampleAddress routeADB = {}
   \<and> routePoolAddresses exampleAddress routeACB \<inter> routePoolAddresses exampleAddress routeADB = {}"
  by code_simp

text \<open>
  C4. One route, whose 50% call failed and whose 100% call succeeded, with the
  percentages \<open>[50, 100]\<close>: the 2-split loop reads index 0 of the missing 50% bucket and
  the search ends in a \<^verbatim>\<open>TypeError\<close>, although a valid 100% quote exists.
\<close>

theorem getBestSwapRoute_missing_bucket_TypeError:
  "hasValidQuoteAt [50, 100] partlyFailedQuotes 100
   \<and> getBestSwapRoute exampleAddress [50, 100] partlyFailedQuotes EXACT_INPUT exampleGasModel 3
       = Inl TypeError"
  by code_simp

section \<open>Properties of the bridge slice\<close>

text \<open>
  C5. An \<^verbatim>\<open>EXACT_OUT\<close> request from \<open>A\<close> to \<open>B\<close> over the pools \<open>WETH/A\<close>, \<open>A/B\<close>
  and \<open>WETH/B\<close>: the slice selected by \<^verbatim>\<open>routeExactOut\<close> is the pool \<open>WETH/B\<close>, which
  pairs the wrapped native token with \<^verbatim>\<open>tokenOut\<close> and not with \<^verbatim>\<open>tokenIn\<close>; the pool
  \<open>WETH/A\<close> that pairs it with \<^verbatim>\<open>tokenIn\<close> is left out. The \<^verbatim>\<open>EXACT_OUTPUT\<close> branch of
  the filter, which \<^verbatim>\<open>routeExactOut\<close> does not reach, selects nothing here: it compares
  token symbols with the address of the wrapped native token.
\<close>

theorem routeExactOut_bridge_pairs_tokenOut:
  "routeExactOut_top2EthQuoteTokenPool tokenWETH tokenA tokenB
     [subgraphWethA, subgraphAB, subgraphWethB] = [subgraphWethB]
   \<and> pairsTokens subgraphWethB tokenWETH tokenB
   \<and> \<not> pairsTokens subgraphWethB tokenWETH tokenA
   \<and> pairsTokens subgraphWethA tokenWETH tokenA
   \<and> top2EthQuoteTokenPool EXACT_OUTPUT tokenWETH tokenA tokenB
        [subgraphWethA, subgraphAB, subgraphWethB] = []"
  by code_simp

text \<open>
  For an \<^verbatim>\<open>EXACT_IN\<close> request the slice holds at most two pools, each pairing the wrapped
  native token with \<^verbatim>\<open>tokenOut\<close>.
\<close>

lemma routeExactIn_bridge_pairs_tokenOut:
  "length (routeExactIn_top2EthQuoteTokenPool weth tokenIn tokenOut subgraphPoolsSorted) \<le> 2
   \<and> list_all (\<lambda>subgraphPool. pairsTokens subgraphPool weth tokenOut)
        (routeExactIn_top2EthQuoteTokenPool weth tokenIn tokenOut subgraphPoolsSorted)"
  unfolding routeExactIn_top2EthQuoteTokenPool_def top2EthQuoteTokenPool_def Let_def
    list_all_iff pairsTokens_def
  by (auto dest!: in_set_takeD)

section \<open>Properties of the route enumerator\<close>

lemma equals_refl: "equals a a" by (simp add: equals_def)
lemma equals_sym: "equals a b \<Longrightarrow> equals b a" by (simp add: equals_def)
lemma equals_trans: "equals a b \<Longrightarrow> equals b c \<Longrightarrow> equals a c" by (simp add: equals_def)

lemma involvesToken_endpoints: "involvesToken p (token0 p)" "involvesToken p (token1 p)"
  by (simp_all add: involvesToken_def equals_refl)

lemma chainEnd_snoc:
  "chainEnd t (ps @ [p]) =
     (case chainEnd t ps of None \<Rightarrow> None
      | Some u \<Rightarrow> if involvesToken p u
                  then Some (if equals (token0 p) u then token1 p else token0 p) else None)"
  by (induction ps arbitrary: t) simp_all

lemma chainEnd_first: "chainEnd t (p # ps) \<noteq> None \<Longrightarrow> involvesToken p t"
  by (simp split: if_splits)

lemma chainEnd_shared:
  "chainEnd t ps \<noteq> None \<Longrightarrow> Suc k < length ps \<Longrightarrow>
     \<exists>u. involvesToken (ps ! k) u \<and> involvesToken (ps ! Suc k) u"
proof (induction ps arbitrary: t k)
  case Nil
  then show ?case by simp
next
  case (Cons p ps)
  let ?u = "if equals (token0 p) t then token1 p else token0 p"
  from Cons.prems(1) have inv: "involvesToken p t" and rest: "chainEnd ?u ps \<noteq> None"
    by (simp_all split: if_splits)
  show ?case
  proof (cases k)
    case 0
    from Cons.prems(2) obtain q qs where ps: "ps = q # qs" by (cases ps) auto
    from rest have "involvesToken q ?u" unfolding ps by (rule chainEnd_first)
    moreover have "involvesToken p ?u" by (simp add: involvesToken_endpoints)
    ultimately show ?thesis using 0 ps by auto
  next
    case (Suc k')
    with Cons.prems(2) have "Suc k' < length ps" by simp
    from Cons.IH[OF rest this] show ?thesis using Suc by simp
  qed
qed


lemma searchState_step:
  assumes st: "searchState allPools tokenIn tokenOut js currentRoute poolsUsed prev"
    and notlast: "\<not> (currentRoute \<noteq> [] \<and> involvesToken (last currentRoute) tokenOut)"
    and i: "i < length allPools" and unused: "\<not> (i < length poolsUsed \<and> poolsUsed ! i)"
    and inv: "involvesToken (allPools ! i) (case prev of None \<Rightarrow> tokenIn | Some t \<Rightarrow> t)"
  shows "searchState allPools tokenIn tokenOut (js @ [i]) (currentRoute @ [allPools ! i])
           (poolsUsed[i := True])
           (Some (if equals (token0 (allPools ! i)) (case prev of None \<Rightarrow> tokenIn | Some t \<Rightarrow> t)
                  then token1 (allPools ! i) else token0 (allPools ! i)))"
proof -
  from st have cur: "currentRoute = map ((!) allPools) js" and dist: "distinct js"
    and sub: "set js \<subseteq> {..<length allPools}" and len: "length poolsUsed = length allPools"
    and used: "\<forall>k<length allPools. poolsUsed ! k = (k \<in> set js)"
    and chain: "chainEnd tokenIn currentRoute = Some (case prev of None \<Rightarrow> tokenIn | Some t \<Rightarrow> t)"
    and mid: "\<forall>p\<in>set (butlast currentRoute). \<not> involvesToken p tokenOut"
    unfolding searchState_def by blast+
  from unused i len used have fresh: "i \<notin> set js" by auto
  have used': "\<forall>k<length allPools. poolsUsed[i := True] ! k = (k \<in> set (js @ [i]))"
    using used len i by (auto simp: nth_list_update)
  have mid': "\<forall>p\<in>set (butlast (currentRoute @ [allPools ! i])). \<not> involvesToken p tokenOut"
  proof (cases "currentRoute = []")
    case True
    then show ?thesis by simp
  next
    case False
    with notlast have "\<not> involvesToken (last currentRoute) tokenOut" by simp
    moreover have "set currentRoute = insert (last currentRoute) (set (butlast currentRoute))"
      using False by (metis append_butlast_last_id insert_is_Un list.simps(15) set_append
          sup_commute empty_set)
    ultimately show ?thesis using mid by (simp add: butlast_append)
  qed
  have chain': "chainEnd tokenIn (currentRoute @ [allPools ! i]) =
      Some (case Some (if equals (token0 (allPools ! i)) (case prev of None \<Rightarrow> tokenIn | Some t \<Rightarrow> t)
                  then token1 (allPools ! i) else token0 (allPools ! i)) of None \<Rightarrow> tokenIn | Some t \<Rightarrow> t)"
    using chain inv by (simp add: chainEnd_snoc)
  have cur': "currentRoute @ [allPools ! i] = map ((!) allPools) (js @ [i])"
    using cur by simp
  have dist': "distinct (js @ [i])" using dist fresh by simp
  have sub': "set (js @ [i]) \<subseteq> {..<length allPools}" using sub i by simp
  have len': "length (poolsUsed[i := True]) = length allPools" using len by simp
  show ?thesis
    unfolding searchState_def
    using cur' dist' sub' len' used' chain' mid' by blast
qed

lemma computeRoutes_emitted:
  "r \<in> set (computeRoutes allPools maxHops tokenIn tokenOut currentRoute poolsUsed prev) \<Longrightarrow>
   searchState allPools tokenIn tokenOut js currentRoute poolsUsed prev \<Longrightarrow>
   emitted allPools maxHops tokenIn tokenOut r"
proof (induction allPools maxHops tokenIn tokenOut currentRoute poolsUsed prev arbitrary: js
       rule: computeRoutes.induct)
  case (1 allPools maxHops tokenIn tokenOut currentRoute poolsUsed prev)
  show ?case
  proof (cases "maxHops < length currentRoute")
    case True
    with "1.prems"(1) show ?thesis by (subst (asm) computeRoutes.simps) simp
  next
    case short: False
    show ?thesis
    proof (cases "currentRoute \<noteq> [] \<and> involvesToken (last currentRoute) tokenOut")
      case True
      with short "1.prems"(1)
      have r: "r = \<lparr>pools = currentRoute, inputToken = tokenIn, outputToken = tokenOut\<rparr>"
        by (subst (asm) computeRoutes.simps) simp
      from "1.prems"(2) True short show ?thesis
        unfolding emitted_def searchState_def r by auto
    next
      case notlast: False
      let ?prev = "case prev of None \<Rightarrow> tokenIn | Some t \<Rightarrow> t"
      from "1.prems"(1) short notlast obtain i where i: "i < length allPools"
        and unused: "\<not> (i < length poolsUsed \<and> poolsUsed ! i)"
        and inv: "involvesToken (allPools ! i) ?prev"
        and r: "r \<in> set (computeRoutes allPools maxHops tokenIn tokenOut
                  (currentRoute @ [allPools ! i]) (poolsUsed[i := True])
                  (Some (if equals (token0 (allPools ! i)) ?prev
                         then token1 (allPools ! i) else token0 (allPools ! i))))"
        by (subst (asm) computeRoutes.simps) (auto simp: Let_def split: if_splits)
      have st: "searchState allPools tokenIn tokenOut (js @ [i]) (currentRoute @ [allPools ! i])
                 (poolsUsed[i := True])
                 (Some (if equals (token0 (allPools ! i)) ?prev
                        then token1 (allPools ! i) else token0 (allPools ! i)))"
        by (rule searchState_step[OF "1.prems"(2) notlast i unused inv])
      show ?thesis
        by (rule "1.IH"[OF short notlast _ unused refl refl _ refl r st]) (use i inv in simp_all)
    qed
  qed
qed


lemma computeAllRoutes_emitted:
  assumes "r \<in> set (computeAllRoutes tokenIn tokenOut allPools maxHops)"
  shows "emitted allPools maxHops tokenIn tokenOut r"
proof -
  have "searchState allPools tokenIn tokenOut [] [] (replicate (length allPools) False) None"
    by (simp add: searchState_def)
  with assms show ?thesis
    unfolding computeAllRoutes_def by (rule computeRoutes_emitted)
qed

text \<open>
  C6. Every route emitted by \<^verbatim>\<open>computeAllRoutes\<close> is well-formed: it has at least one and
  at most \<^verbatim>\<open>maxSwapsPerPath\<close> pools; any two consecutive pools share a token; the first
  pool involves \<^verbatim>\<open>tokenIn\<close> and the chain of token endpoints that starts at \<^verbatim>\<open>tokenIn\<close>
  threads through every pool; the final pool involves \<^verbatim>\<open>tokenOut\<close>; and no pool occurs
  twice: the route is read off a list of distinct slots of the pool array, so it has no
  repeated pool whenever the pool array has none.
\<close>

theorem computeAllRoutes_well_formed:
  assumes "r \<in> set (computeAllRoutes tokenIn tokenOut allPools maxSwapsPerPath)"
  shows "pools r \<noteq> [] \<and> length (pools r) \<le> maxSwapsPerPath
       \<and> (\<forall>k. Suc k < length (pools r) \<longrightarrow>
            (\<exists>t. involvesToken (pools r ! k) t \<and> involvesToken (pools r ! Suc k) t))
       \<and> involvesToken (hd (pools r)) tokenIn
       \<and> chainEnd tokenIn (pools r) \<noteq> None
       \<and> involvesToken (last (pools r)) tokenOut
       \<and> (\<exists>js. distinct js \<and> set js \<subseteq> {..<length allPools} \<and> pools r = map ((!) allPools) js)
       \<and> (distinct allPools \<longrightarrow> distinct (pools r))
       \<and> inputToken r = tokenIn \<and> outputToken r = tokenOut"
proof -
  from computeAllRoutes_emitted[OF assms] obtain js where
    js: "pools r = map ((!) allPools) js" "distinct js" "set js \<subseteq> {..<length allPools}"
    and ne: "pools r \<noteq> []" and len: "length (pools r) \<le> maxSwapsPerPath"
    and chain: "chainEnd tokenIn (pools r) \<noteq> None"
    and fin: "involvesToken (last (pools r)) tokenOut"
    and ends: "inputToken r = tokenIn" "outputToken r = tokenOut"
    unfolding emitted_def by blast
  have shared: "\<forall>k. Suc k < length (pools r) \<longrightarrow>
            (\<exists>t. involvesToken (pools r ! k) t \<and> involvesToken (pools r ! Suc k) t)"
    using chainEnd_shared[OF chain] by blast
  have first: "involvesToken (hd (pools r)) tokenIn"
    using ne chain by (cases "pools r") (simp_all split: if_splits)
  have dist: "distinct (pools r)" if "distinct allPools"
  proof -
    have "inj_on ((!) allPools) (set js)"
      using that js(3) by (intro inj_on_nth) auto
    then show ?thesis using js(1,2) by (simp add: distinct_map)
  qed
  show ?thesis using js ne len shared first chain fin dist ends by blast
qed

text \<open>
  The route \<open>A \<rightarrow> C \<rightarrow> B\<close> is emitted for the pools \<open>AB\<close>, \<open>AC\<close>, \<open>BC\<close> and is
  well-formed.
\<close>

theorem computeAllRoutes_well_formed_witness:
  "routeACB \<in> set (computeAllRoutes tokenA tokenB [poolAB, poolAC, poolBC] 3)
   \<and> length (pools routeACB) = 2 \<and> length (pools routeACB) \<le> 3
   \<and> (\<exists>t. involvesToken (pools routeACB ! 0) t \<and> involvesToken (pools routeACB ! 1) t)
   \<and> involvesToken (hd (pools routeACB)) tokenA
   \<and> chainEnd tokenA (pools routeACB) \<noteq> None
   \<and> involvesToken (last (pools routeACB)) tokenB
   \<and> distinct [poolAB, poolAC, poolBC] \<and> distinct (pools routeACB)"
proof -
  have mem: "routeACB \<in> set (computeAllRoutes tokenA tokenB [poolAB, poolAC, poolBC] 3)"
    by code_simp
  have len: "length (pools routeACB) = 2" by code_simp
  have dist: "distinct [poolAB, poolAC, poolBC]" by code_simp
  note wf = computeAllRoutes_well_formed[OF mem]
  from wf have "\<exists>t. involvesToken (pools routeACB ! 0) t \<and> involvesToken (pools routeACB ! Suc 0) t"
    using len by simp
  with wf mem len dist show ?thesis by simp
qed

text \<open>
  C7, as amended. The search emits the current path and returns as soon as its last pool
  involves \<^verbatim>\<open>tokenOut\<close>, so in every emitted route no pool before the final one involves
  \<^verbatim>\<open>tokenOut\<close>, and the final one does.
\<close>

theorem computeAllRoutes_stops_at_tokenOut:
  assumes "r \<in> set (computeAllRoutes tokenIn tokenOut allPools maxHops)"
    and "Suc k < length (pools r)"
  shows "\<not> involvesToken (pools r ! k) tokenOut \<and> involvesToken (last (pools r)) tokenOut"
proof -
  from computeAllRoutes_emitted[OF assms(1)]
  have mid: "\<forall>p\<in>set (butlast (pools r)). \<not> involvesToken p tokenOut"
    and fin: "involvesToken (last (pools r)) tokenOut"
    unfolding emitted_def by blast+
  from assms(2) have k: "k < length (butlast (pools r))" by simp
  then have "butlast (pools r) ! k \<in> set (butlast (pools r))" by (rule nth_mem)
  moreover have "butlast (pools r) ! k = pools r ! k" using k by (simp add: nth_butlast)
  ultimately show ?thesis using mid fin by auto
qed

text \<open>
  In the emitted route \<open>A \<rightarrow> C \<rightarrow> B\<close> the first pool does not involve the output token
  \<open>B\<close>.
\<close>

theorem computeAllRoutes_stops_at_tokenOut_witness:
  "routeACB \<in> set (computeAllRoutes tokenA tokenB [poolAB, poolAC, poolBC] 3)
   \<and> Suc 0 < length (pools routeACB)
   \<and> \<not> involvesToken (pools routeACB ! 0) tokenB
   \<and> involvesToken (last (pools routeACB)) tokenB"
proof -
  have mem: "routeACB \<in> set (computeAllRoutes tokenA tokenB [poolAB, poolAC, poolBC] 3)"
    by code_simp
  have len: "Suc 0 < length (pools routeACB)" by code_simp
  from computeAllRoutes_stops_at_tokenOut[OF mem len] mem len show ?thesis by simp
qed

text \<open>
  C7, as stated, claims that for some pool set an emitted route has a non-final pool that
  involves \<^verbatim>\<open>tokenOut\<close>. No pool set, token pair and hop bound gives such a route.
\<close>

theorem computeAllRoutes_never_passes_through_tokenOut:
  "\<not> (\<exists>tokenIn tokenOut allPools maxHops r k.
        r \<in> set (computeAllRoutes tokenIn tokenOut allPools maxHops)
      \<and> Suc k < length (pools r)
      \<and> involvesToken (pools r ! k) tokenOut)"
proof
  assume "\<exists>tokenIn tokenOut allPools maxHops r k.
        r \<in> set (computeAllRoutes tokenIn tokenOut allPools maxHops)
      \<and> Suc k < length (pools r)
      \<and> involvesToken (pools r ! k) tokenOut"
  then obtain tokenIn tokenOut allPools maxHops r k where
    mem: "r \<in> set (computeAllRoutes tokenIn tokenOut allPools maxHops)"
    and k: "Suc k < length (pools r)" and through: "involvesToken (pools r ! k) tokenOut"
    by blast
  from computeAllRoutes_emitted[OF mem]
  have mid: "\<forall>p\<in>set (butlast (pools r)). \<not> involvesToken p tokenOut"
    unfolding emitted_def by blast
  from k have k': "k < length (butlast (pools r))" by simp
  then have "butlast (pools r) ! k \<in> set (butlast (pools r))" by (rule nth_mem)
  moreover have "butlast (pools r) ! k = pools r ! k" using k' by (simp add: nth_butlast)
  ultimately show False using mid through by auto
qed

text \<open>
  With the pools \<open>AB\<close>, \<open>BC\<close> (fee 500) and \<open>BC\<close> (fee 3000), the path
  \<open>A \<rightarrow> B \<rightarrow> C \<rightarrow> B\<close> would pass through the output token \<open>B\<close>; the search stops
  at \<open>AB\<close> and emits that route only.
\<close>

lemma computeAllRoutes_through_example:
  "computeAllRoutes tokenA tokenB [poolAB, poolBC, poolBC'] 3
     = [\<lparr>pools = [poolAB], inputToken = tokenA, outputToken = tokenB\<rparr>]"
  by code_simp

section \<open>Properties of the multicall results\<close>








section \<open>Properties of the amount distributor\<close>

lemma distributionLoop_unfold:
  assumes "0 < d" and "1 \<le> i" and "i \<le> 100 div d + 1"
  shows "distributionLoop amount d i ps as =
           Some (ps @ map (\<lambda>k. k * d) [i..100 div d],
                 as @ map (\<lambda>k. amount * (of_int (k * d) / 100)) [i..100 div d])"
  using assms
proof (induction "nat (100 div d + 1 - i)" arbitrary: i ps as)
  case 0
  then have i: "i = 100 div d + 1" by simp
  have "100 < i * d"
  proof -
    have "100 mod d < d" using \<open>0 < d\<close> by simp
    moreover have "100 = d * (100 div d) + 100 mod d" by simp
    ultimately have "100 < d * (100 div d) + d" by linarith
    then show ?thesis by (simp add: i algebra_simps)
  qed
  then have "\<not> loopTest i d" using \<open>0 < d\<close> by (simp add: loopTest_def)
  then show ?case
    by (subst distributionLoop.simps) (simp add: i)
next
  case (Suc n)
  then have le: "i \<le> 100 div d" by linarith
  have "i * d \<le> (100 div d) * d" using le \<open>0 < d\<close> by (simp add: mult_right_mono)
  also have "\<dots> \<le> 100" using \<open>0 < d\<close>
    by (metis mult.commute pos_mod_sign add_increasing2 mult_div_mod_eq order_refl)
  finally have test: "loopTest i d" using \<open>0 < d\<close> by (simp add: loopTest_def)
  have n: "n = nat (100 div d + 1 - (i + 1))" using Suc.hyps(2) by linarith
  have up: "[i..100 div d] = i # [i + 1..100 div d]" using le by (simp add: upto_rec1)
  have IH: "distributionLoop amount d (i + 1) ps' as' =
           Some (ps' @ map (\<lambda>k. k * d) [i + 1..100 div d],
                 as' @ map (\<lambda>k. amount * (of_int (k * d) / 100)) [i + 1..100 div d])"
    for ps' as'
    using Suc.hyps(1)[OF n \<open>0 < d\<close>, of ps' as'] Suc.prems(2) le by simp
  show ?case
    by (subst distributionLoop.simps) (simp add: test IH up)
qed

text \<open>
  C9. For every amount and every positive \<^verbatim>\<open>distributionPercent\<close> that divides 100,
  \<^verbatim>\<open>getAmountDistribution\<close> returns, with \<open>K = 100 / distributionPercent\<close>, exactly
  \<open>K\<close> percentages and \<open>K\<close> amounts; entry \<open>i - 1\<close> holds the percentage
  \<open>i * distributionPercent\<close> and the exact fraction
  \<open>amount * (i * distributionPercent) / 100\<close>, and the last amount is the whole amount.
\<close>

theorem getAmountDistribution_exact:
  assumes "0 < d" and "d dvd 100"
  shows "\<exists>percents amounts.
           getAmountDistribution amount d = Some (percents, amounts)
         \<and> int (length percents) = 100 div d
         \<and> int (length amounts) = 100 div d
         \<and> (\<forall>i. 1 \<le> i \<and> i \<le> 100 div d \<longrightarrow>
                percents ! nat (i - 1) = i * d
              \<and> amounts ! nat (i - 1) = amount * (of_int (i * d) / 100))
         \<and> amounts \<noteq> [] \<and> last amounts = amount"
proof -
  let ?K = "100 div d"
  let ?ps = "map (\<lambda>k. k * d) [1..?K]"
  let ?as = "map (\<lambda>k. amount * (of_int (k * d) / 100)) [1..?K]"
  have K1: "1 \<le> ?K"
  proof -
    have "d \<le> 100" using assms by (simp add: zdvd_imp_le)
    then have "0 < 100 div d" using \<open>0 < d\<close> by (simp add: pos_imp_zdiv_pos_iff)
    then show ?thesis by linarith
  qed
  have Kd: "?K * d = 100" using assms by simp
  have run: "getAmountDistribution amount d = Some (?ps, ?as)"
    unfolding getAmountDistribution_def
    using distributionLoop_unfold[OF \<open>0 < d\<close>, of 1 amount "[]" "[]"] K1 by simp
  have len: "int (length [1..?K]) = ?K" using K1 by simp
  have nth: "[1..?K] ! nat (i - 1) = i" if "1 \<le> i" "i \<le> ?K" for i
    using that by simp
  have inb: "nat (i - 1) < length [1..?K]" if "1 \<le> i" "i \<le> ?K" for i
    using that by simp
  have ne: "[1..?K] \<noteq> []" using K1 by simp
  have lastK: "last [1..?K] = ?K" using K1 by (simp add: upto_rec2)
  have "last ?as = amount * (of_int (?K * d) / 100)"
    using ne lastK by (simp add: last_map)
  then have last_eq: "last ?as = amount" by (simp add: Kd)
  show ?thesis
    using run len nth inb ne last_eq by (intro exI[of _ ?ps] exI[of _ ?as]) simp
qed

theorem getAmountDistribution_exact_witness:
  "(0::int) < 25 \<and> (25::int) dvd 100
   \<and> getAmountDistribution 8 25 = Some ([25, 50, 75, 100], [2, 4, 6, 8])"
proof -
  have d: "(0::int) < 25" "(25::int) dvd 100" by simp_all
  obtain percents amounts where
    run: "getAmountDistribution 8 25 = Some (percents, amounts)"
    and lp: "int (length percents) = 100 div 25"
    and la: "int (length amounts) = 100 div 25"
    and nth: "\<forall>i. 1 \<le> i \<and> i \<le> 100 div 25 \<longrightarrow>
                percents ! nat (i - 1) = i * 25
              \<and> amounts ! nat (i - 1) = 8 * (of_int (i * 25) / 100)"
    using getAmountDistribution_exact[OF d, of 8] by blast
  have lp4: "length percents = 4" and la4: "length amounts = 4" using lp la by simp_all
  have p: "percents ! 0 = 25" "percents ! 1 = 50" "percents ! 2 = 75" "percents ! 3 = 100"
    using nth[rule_format, of 1] nth[rule_format, of 2] nth[rule_format, of 3]
      nth[rule_format, of 4] by simp_all
  have a: "amounts ! 0 = 2" "amounts ! 1 = 4" "amounts ! 2 = 6" "amounts ! 3 = 8"
    using nth[rule_format, of 1] nth[rule_format, of 2] nth[rule_format, of 3]
      nth[rule_format, of 4] by simp_all
  have "percents = [25, 50, 75, 100]"
    using lp4 p by (intro nth_equalityI) (auto simp: less_Suc_eq numeral_eq_Suc)
  moreover have "amounts = [2, 4, 6, 8]"
    using la4 a by (intro nth_equalityI) (auto simp: less_Suc_eq numeral_eq_Suc)
  ultimately show ?thesis using run d by simp
qed

end
